theory Spec2Isabelle
  imports Main "HOL-Library.Multiset"
begin

unbundle bit_operations_syntax

section \<open>Block Blast: the bitboard engine of \<^verbatim>\<open>game.py\<close> and the solver of \<^verbatim>\<open>bots/simple.py\<close>\<close>

text \<open>
  Python integers are unbounded, so the board and every mask is an \<open>int\<close>; the bit
  operations of HOL on \<open>int\<close> are the two's-complement ones of Python (\<open>&\<close> is \<open>AND\<close>,
  \<open>|\<close> is \<open>OR\<close>, \<open>~\<close> is \<open>NOT\<close>, \<open>x << n\<close> is \<open>push_bit n x\<close>, \<open>x >> n\<close> is
  \<open>drop_bit n x\<close>). A dictionary lookup of a missing key raises \<open>KeyError\<close>, a shift by
  a negative count raises \<open>ValueError\<close>, and \<open>int(x)\<close> raises \<open>OverflowError\<close> for an
  infinite float and \<open>ValueError\<close> for a NaN; they are the values of \<open>py_error\<close>.
\<close>

datatype py_error = KeyError | ValueError | OverflowError

type_synonym position = "int \<times> int"

subsection \<open>The piece catalog (\<^verbatim>\<open>_initialize_piece_data\<close>)\<close>

text \<open>
  The two dictionaries, in insertion order, as association lists. The interior masks
  are the source's binary literals written in decimal (for instance \<open>0b111_100 = 60\<close>).
\<close>

definition name_to_pieces :: "(string \<times> int) list" where
  "name_to_pieces =
  [(''sq1'', 1), (''sq2'', 15), (''sq3'', 511),
   (''line2h'', 3), (''line3h'', 7), (''line4h'', 15), (''line5h'', 31),
   (''line2v'', 3), (''line3v'', 7), (''line4v'', 15), (''line5v'', 31),
   (''diag2'', 6), (''diag3'', 84), (''diag2f'', 9), (''diag3f'', 273),
   (''l1'', 43), (''l2'', 60), (''l3'', 53), (''l4'', 15),
   (''l1f'', 23), (''l2f'', 39), (''l3f'', 58), (''l4f'', 57),
   (''t1'', 23), (''t2'', 29), (''t3'', 58), (''t4'', 46),
   (''s1'', 30), (''s2'', 45), (''s1f'', 51), (''s2f'', 30),
   (''L1'', 295), (''L2'', 484), (''L3'', 457), (''L4'', 79),
   (''sL1'', 11), (''sL2'', 14), (''sL3'', 13), (''sL4'', 7)]"

definition name_to_size :: "(string \<times> (nat \<times> nat)) list" where
  "name_to_size =
  [(''sq1'', (1, 1)), (''sq2'', (2, 2)), (''sq3'', (3, 3)),
   (''line2h'', (2, 1)), (''line3h'', (3, 1)), (''line4h'', (4, 1)), (''line5h'', (5, 1)),
   (''line2v'', (1, 2)), (''line3v'', (1, 3)), (''line4v'', (1, 4)), (''line5v'', (1, 5)),
   (''diag2'', (2, 2)), (''diag3'', (3, 3)), (''diag2f'', (2, 2)), (''diag3f'', (3, 3)),
   (''l1'', (2, 3)), (''l2'', (3, 2)), (''l3'', (2, 3)), (''l4'', (3, 2)),
   (''l1f'', (2, 3)), (''l2f'', (3, 2)), (''l3f'', (2, 3)), (''l4f'', (3, 2)),
   (''t1'', (3, 2)), (''t2'', (2, 3)), (''t3'', (3, 2)), (''t4'', (2, 3)),
   (''s1'', (3, 2)), (''s2'', (2, 3)), (''s1f'', (3, 2)), (''s2f'', (2, 3)),
   (''L1'', (3, 3)), (''L2'', (3, 3)), (''L3'', (3, 3)), (''L4'', (3, 3)),
   (''sL1'', (2, 2)), (''sL2'', (2, 2)), (''sL3'', (2, 2)), (''sL4'', (2, 2))]"

definition all_piece_names :: "string list" where
  "all_piece_names = map fst name_to_pieces"

subsection \<open>Floating point (the two score accumulators)\<close>

text \<open>
  \<open>score_increment\<close> and \<open>score_incremental_acceleration\<close> are Python floats, that
  is IEEE-754 doubles. \<open>Float m e\<close> stands for \<open>m * 2 ^ e\<close>, \<open>Infinity True\<close> and
  \<open>Infinity False\<close> for \<open>inf\<close> and \<open>-inf\<close>. An operation computes the exact result and
  rounds it to nearest, ties to even: to 53 significant bits, or to a multiple of
  \<open>2 ^ -1074\<close> where the result is subnormal; a rounded result of magnitude \<open>2 ^ 1024\<close> or
  more is an infinity. Python raises nothing on \<open>+\<close> and \<open>*\<close> of floats. The sign of a
  zero is not kept: \<open>+\<close>, \<open>*\<close> and \<open>int\<close> give the same values for both zeros.
\<close>

datatype float64 = Float (mant: int) (expo: int) | Infinity bool | NaN

function bit_length :: "int \<Rightarrow> nat" where
  "bit_length n = (if n \<le> 0 then 0 else Suc (bit_length (n div 2)))"
  by pat_completeness auto
termination
  by (relation "measure nat") auto

declare bit_length.simps [simp del]

definition overflow_check :: "int \<Rightarrow> int \<Rightarrow> float64" where
  "overflow_check m e =
     (if int (bit_length \<bar>m\<bar>) + e > 1024 then Infinity (0 < m) else Float m e)"

definition round53 :: "int \<Rightarrow> int \<Rightarrow> float64" where
  "round53 m e =
    (let sh = max (int (bit_length \<bar>m\<bar>) - 53) (- 1074 - e) in
     if sh \<le> 0 then overflow_check m e
     else
       let q = \<bar>m\<bar> div 2 ^ nat sh;
           r = \<bar>m\<bar> mod 2 ^ nat sh;
           half = 2 ^ (nat sh - 1);
           q' = (if r > half \<or> (r = half \<and> odd q) then q + 1 else q)
       in overflow_check (sgn m * q') (e + sh))"

fun fadd :: "float64 \<Rightarrow> float64 \<Rightarrow> float64" where
  "fadd (Float m1 e1) (Float m2 e2) =
     (let e = min e1 e2 in round53 (m1 * 2 ^ nat (e1 - e) + m2 * 2 ^ nat (e2 - e)) e)"
| "fadd NaN b = NaN"
| "fadd a NaN = NaN"
| "fadd (Infinity p) (Infinity q) = (if p = q then Infinity p else NaN)"
| "fadd (Infinity p) (Float m e) = Infinity p"
| "fadd (Float m e) (Infinity q) = Infinity q"

fun fmul :: "float64 \<Rightarrow> float64 \<Rightarrow> float64" where
  "fmul (Float m1 e1) (Float m2 e2) = round53 (m1 * m2) (e1 + e2)"
| "fmul NaN b = NaN"
| "fmul a NaN = NaN"
| "fmul (Infinity p) (Infinity q) = Infinity (p = q)"
| "fmul (Infinity p) (Float m e) = (if m = 0 then NaN else Infinity (p = (0 < m)))"
| "fmul (Float m e) (Infinity q) = (if m = 0 then NaN else Infinity (q = (0 < m)))"

text \<open>
  \<open>int(x)\<close> truncates towards zero; it raises \<open>OverflowError\<close> for an infinity and
  \<open>ValueError\<close> for a NaN.
\<close>

fun py_int :: "float64 \<Rightarrow> py_error + int" where
  "py_int (Float m e) =
     Inr (if 0 \<le> e then m * 2 ^ nat e else sgn m * (\<bar>m\<bar> div 2 ^ nat (- e)))"
| "py_int (Infinity p) = Inl OverflowError"
| "py_int NaN = Inl ValueError"

text \<open>The double nearest to \<open>34.2\<close> is \<open>2406611050876109 / 2 ^ 46\<close>.\<close>

definition BASE_SCORE_ACCELERATION :: float64 where
  "BASE_SCORE_ACCELERATION = Float 2406611050876109 (- 46)"

text \<open>\<open>SCORE_MULTIPLIERS.get(lines_cleared, 30.0)\<close>.\<close>

definition SCORE_MULTIPLIERS_get :: "nat \<Rightarrow> float64" where
  "SCORE_MULTIPLIERS_get n =
    (if n = 1 then Float 1 0 else if n = 2 then Float 2 0 else if n = 3 then Float 6 0
     else if n = 4 then Float 12 0 else if n = 5 then Float 20 0
     else if n = 6 then Float 30 0 else Float 30 0)"

subsection \<open>The session (\<^verbatim>\<open>class BlockBlast\<close>)\<close>

record session =
  width :: nat
  height :: nat
  is_guranteed_valid_moves :: bool
  board :: int
  score :: int
  combo :: int
  not_combo_counter :: int
  score_increment :: float64
  score_incremental_acceleration :: float64
  game_over :: bool
  current_pieces :: "string list"

subsection \<open>Board geometry (\<^verbatim>\<open>_precompute_masks\<close>)\<close>

text \<open>
  The tables \<open>name_to_piece_masks\<close>, \<open>row_masks\<close> and \<open>col_masks\<close> are filled once by
  the constructor from \<open>width\<close> and \<open>height\<close>, which no method assigns afterwards; the
  model computes an entry from the two fields where the source reads the table.
\<close>

definition scaled_mask :: "nat \<Rightarrow> int \<Rightarrow> nat \<Rightarrow> nat \<Rightarrow> int" where
  "scaled_mask w compact_mask piece_w piece_h =
     fold (\<lambda>r scaled.
             scaled OR push_bit (r * w) (drop_bit (r * piece_w) compact_mask AND (push_bit piece_w 1 - 1)))
          [0..<piece_h] 0"

definition name_to_piece_masks :: "session \<Rightarrow> string \<Rightarrow> int option" where
  "name_to_piece_masks s name =
     (case map_of name_to_pieces name of
        None \<Rightarrow> None
      | Some compact_mask \<Rightarrow>
          (case map_of name_to_size name of
             None \<Rightarrow> None
           | Some (piece_w, piece_h) \<Rightarrow> Some (scaled_mask (width s) compact_mask piece_w piece_h)))"

text \<open>The entry \<open>row_masks[r]\<close> and the table.\<close>

definition row_mask :: "session \<Rightarrow> nat \<Rightarrow> int" where
  "row_mask s r = push_bit (r * width s) (push_bit (width s) 1 - 1)"

definition row_masks :: "session \<Rightarrow> int list" where
  "row_masks s = map (row_mask s) [0..<height s]"

text \<open>The entry \<open>col_masks[c]\<close> (the inner loop over the rows) and the table.\<close>

definition col_mask :: "session \<Rightarrow> nat \<Rightarrow> int" where
  "col_mask s c = fold (\<lambda>r m. m OR push_bit (r * width s + c) 1) [0..<height s] 0"

definition col_masks :: "session \<Rightarrow> int list" where
  "col_masks s = map (col_mask s) [0..<width s]"

subsection \<open>Placement (\<^verbatim>\<open>get_piece_mask\<close>, \<^verbatim>\<open>is_valid_move\<close>)\<close>

definition get_piece_mask :: "session \<Rightarrow> string \<Rightarrow> position \<Rightarrow> py_error + int" where
  "get_piece_mask s piece_name pos =
     (case pos of (px, py) \<Rightarrow>
        (case name_to_piece_masks s piece_name of
           None \<Rightarrow> Inl KeyError
         | Some m \<Rightarrow>
             if py * int (width s) + px < 0 then Inl ValueError
             else Inr (push_bit (nat (py * int (width s) + px)) m)))"

definition is_valid_move :: "session \<Rightarrow> int \<Rightarrow> string \<Rightarrow> position \<Rightarrow> py_error + bool" where
  "is_valid_move s b piece_name pos =
     (case map_of name_to_size piece_name of
        None \<Rightarrow> Inl KeyError
      | Some (piece_w, piece_h) \<Rightarrow>
          (case pos of (px, py) \<Rightarrow>
             if px < 0 \<or> py < 0 \<or> px + int piece_w > int (width s) \<or> py + int piece_h > int (height s)
             then Inr False
             else (case get_piece_mask s piece_name pos of
                     Inl e \<Rightarrow> Inl e
                   | Inr m \<Rightarrow> if b AND m \<noteq> 0 then Inr False else Inr True)))"

text \<open>
  The positions of the board in the order of the nested loops
  \<^verbatim>\<open>for y in range(height): for x in range(width)\<close>.
\<close>

definition positions :: "session \<Rightarrow> position list" where
  "positions s = concat (map (\<lambda>y. map (\<lambda>x. (int x, int y)) [0..<width s]) [0..<height s])"

text \<open>A loop that returns at the first element passing a test that may raise.\<close>

fun find_first :: "('a \<Rightarrow> py_error + bool) \<Rightarrow> 'a list \<Rightarrow> py_error + 'a option" where
  "find_first f [] = Inr None"
| "find_first f (x # xs) =
     (case f x of Inl e \<Rightarrow> Inl e | Inr True \<Rightarrow> Inr (Some x) | Inr False \<Rightarrow> find_first f xs)"

text \<open>A loop that collects the elements passing a test that may raise.\<close>

fun filter_raising :: "('a \<Rightarrow> py_error + bool) \<Rightarrow> 'a list \<Rightarrow> py_error + 'a list" where
  "filter_raising f [] = Inr []"
| "filter_raising f (x # xs) =
     (case f x of
        Inl e \<Rightarrow> Inl e
      | Inr keep \<Rightarrow>
          (case filter_raising f xs of
             Inl e \<Rightarrow> Inl e
           | Inr ys \<Rightarrow> Inr (if keep then x # ys else ys)))"

text \<open>\<^verbatim>\<open>_can_place_piece\<close>: the first valid position in row-major order, \<open>None\<close> for \<open>False\<close>.\<close>

definition can_place_piece :: "session \<Rightarrow> int \<Rightarrow> string \<Rightarrow> py_error + position option" where
  "can_place_piece s b piece_name = find_first (is_valid_move s b piece_name) (positions s)"

text \<open>
  \<^verbatim>\<open>get_possible_moves\<close>: the dictionary is built key by key; assigning a key that is
  already there (a name held twice) keeps its place and replaces its value.
\<close>

fun dict_set :: "('k \<times> 'v) list \<Rightarrow> 'k \<Rightarrow> 'v \<Rightarrow> ('k \<times> 'v) list" where
  "dict_set [] k v = [(k, v)]"
| "dict_set ((k', v') # d) k v = (if k' = k then (k, v) # d else (k', v') # dict_set d k v)"

fun possible_moves_loop ::
  "session \<Rightarrow> string list \<Rightarrow> (string \<times> position list) list \<Rightarrow> py_error + (string \<times> position list) list"
where
  "possible_moves_loop s [] possible_moves = Inr possible_moves"
| "possible_moves_loop s (name # names) possible_moves =
     (case filter_raising (is_valid_move s (board s) name) (positions s) of
        Inl e \<Rightarrow> Inl e
      | Inr moves \<Rightarrow>
          possible_moves_loop s names
            (if moves \<noteq> [] then dict_set possible_moves name moves else possible_moves))"

definition get_possible_moves :: "session \<Rightarrow> py_error + (string \<times> position list) list" where
  "get_possible_moves s = possible_moves_loop s (current_pieces s) []"

subsection \<open>Line detection, and the simulation \<^verbatim>\<open>try_move\<close>\<close>

text \<open>
  One \<^verbatim>\<open>for\<close> loop over a mask table, carrying \<open>(lines_cleared, cleared_mask)\<close>; the
  board tested is the same at every iteration.
\<close>

fun scan_masks :: "int \<Rightarrow> int list \<Rightarrow> nat \<times> int \<Rightarrow> nat \<times> int" where
  "scan_masks b [] acc = acc"
| "scan_masks b (m # ms) (lines_cleared, cleared_mask) =
     scan_masks b ms
       (if b AND m = m then (lines_cleared + 1, cleared_mask OR m) else (lines_cleared, cleared_mask))"

text \<open>The row loop, then the column loop, both on the board after the placement.\<close>

definition detect_lines :: "session \<Rightarrow> int \<Rightarrow> nat \<times> int" where
  "detect_lines s b = scan_masks b (col_masks s) (scan_masks b (row_masks s) (0, 0))"

text \<open>
  \<open>detect_and_clear_lines\<close>: the detection followed by
  \<^verbatim>\<open>if lines_cleared > 0: board &= ~cleared_mask\<close>, as \<open>make_move\<close> and \<open>try_move\<close>
  both have it.
\<close>

definition detect_and_clear_lines :: "session \<Rightarrow> int \<Rightarrow> int \<times> nat" where
  "detect_and_clear_lines s b =
     (case detect_lines s b of (lines_cleared, cleared_mask) \<Rightarrow>
        (if lines_cleared > 0 then b AND NOT cleared_mask else b, lines_cleared))"

text \<open>
  The result dictionaries: \<open>{"status": "error", "message": ...}\<close> is \<open>Failure\<close>, and
  \<open>{"status": "success", ...}\<close> is \<open>Success\<close>; \<open>try_move\<close> has no \<open>"score"\<close> key.
\<close>

record move_result =
  res_board :: int
  res_score :: "int option"
  res_lines_cleared :: nat
  res_game_over :: bool

datatype outcome = Failure string | Success move_result

text \<open>
  \<open>try_move\<close> assigns no field of the session (nor does any method it calls), so the
  session after the call is the session before it, and the model returns the result only.
  Its \<open>game_over\<close> comes from \<^verbatim>\<open>self.get_possible_moves()\<close>, which reads the live board
  and the live held list.
\<close>

definition try_move :: "session \<Rightarrow> int \<Rightarrow> string \<Rightarrow> position \<Rightarrow> py_error + outcome" where
  "try_move s b piece_name pos =
     (case is_valid_move s b piece_name pos of
        Inl e \<Rightarrow> Inl e
      | Inr False \<Rightarrow> Inr (Failure ''Invalid move.'')
      | Inr True \<Rightarrow>
          (case get_piece_mask s piece_name pos of
             Inl e \<Rightarrow> Inl e
           | Inr m \<Rightarrow>
               (case detect_and_clear_lines s (b OR m) of (b', lines_cleared) \<Rightarrow>
                  (case get_possible_moves s of
                     Inl e \<Rightarrow> Inl e
                   | Inr possible_moves \<Rightarrow>
                       Inr (Success \<lparr>res_board = b', res_score = None,
                                     res_lines_cleared = lines_cleared,
                                     res_game_over = (possible_moves = [])\<rparr>)))))"

subsection \<open>Scoring (the \<^verbatim>\<open>if lines_cleared > 0\<close> branch of \<^verbatim>\<open>make_move\<close>)\<close>

text \<open>\<open>int.bit_count()\<close>: the number of ones in the binary form of the absolute value.\<close>

function bit_count :: "int \<Rightarrow> nat" where
  "bit_count n = (if n = 0 then 0 else (if odd n then 1 else 0) + bit_count (\<bar>n\<bar> div 2))"
  by pat_completeness auto
termination
  by (relation "measure (\<lambda>n. nat \<bar>n\<bar>)") auto

declare bit_count.simps [simp del]

text \<open>
  The \<^verbatim>\<open>match self.combo\<close> statement. The float literals \<open>0.375\<close>, \<open>4.6666\<close> and
  \<open>0.2857\<close> are the doubles \<open>3 / 2 ^ 3\<close>, \<open>5254124505271789 / 2 ^ 50\<close> and
  \<open>5146713654159003 / 2 ^ 54\<close>.
\<close>

definition match_combo :: "int \<Rightarrow> float64 \<Rightarrow> float64" where
  "match_combo c acceleration =
     (if c = 0 then BASE_SCORE_ACCELERATION
      else if c = 5 then fmul acceleration (Float 4 0)
      else if c = 6 then fmul acceleration (Float 3 (- 3))
      else if c = 10 then fmul acceleration (Float 5254124505271789 (- 50))
      else if c = 11 then fmul acceleration (Float 5146713654159003 (- 54))
      else acceleration)"

text \<open>
  The statements of the branch, one \<open>let\<close> for each assignment, in the source's order:
  \<open>not_combo_counter\<close> is assigned 3, and the test of the next line reads it. The last
  statement raises when \<open>int\<close> does, after the assignments before it.
\<close>

definition clear_and_score :: "session \<Rightarrow> nat \<Rightarrow> int \<Rightarrow> py_error + session" where
  "clear_and_score s lines_cleared cleared_mask =
     (let s1 = s\<lparr>board := board s AND NOT cleared_mask\<rparr>;
          s2 = s1\<lparr>not_combo_counter := 3\<rparr>;
          s3 = (if not_combo_counter s2 + int lines_cleared \<le> 1
                then s2\<lparr>combo := - 1, score_increment := Float 0 0\<rparr> else s2);
          s4 = s3\<lparr>combo := combo s3 + 1\<rparr>;
          s5 = s4\<lparr>score_incremental_acceleration :=
                     match_combo (combo s4) (score_incremental_acceleration s4)\<rparr>;
          s6 = s5\<lparr>score_increment := fadd (score_increment s5) (score_incremental_acceleration s5)\<rparr>
      in case py_int (fmul (score_increment s6) (SCORE_MULTIPLIERS_get lines_cleared)) of
           Inl e \<Rightarrow> Inl e
         | Inr bonus \<Rightarrow> Inr (s6\<lparr>score := score s6 + bonus\<rparr>))"

subsection \<open>Dealing (\<^verbatim>\<open>_deal_new_pieces\<close>, \<^verbatim>\<open>_guaranteed_deal_new_pieces\<close>)\<close>

text \<open>
  The random module is not modelled: a call takes the outcomes of its random draws as an
  argument. \<open>sample3\<close> is what \<^verbatim>\<open>random.sample(all_piece_names, 3)\<close> returns,
  \<open>shuffle1\<close> is the catalog after \<^verbatim>\<open>random.shuffle(all_pieces_choices)\<close>, and
  \<open>shuffle2\<close> is what the last \<^verbatim>\<open>random.shuffle(self.current_pieces)\<close> makes of the
  list it is given. \<open>draws_ok\<close> says that the outcomes are possible ones.
\<close>

record draws =
  sample3 :: "string list"
  shuffle1 :: "string list"
  shuffle2 :: "string list \<Rightarrow> string list"

definition draws_ok :: "draws \<Rightarrow> bool" where
  "draws_ok rnd \<longleftrightarrow>
     length (sample3 rnd) = 3 \<and> distinct (sample3 rnd) \<and> set (sample3 rnd) \<subseteq> set all_piece_names \<and>
     mset (shuffle1 rnd) = mset all_piece_names \<and>
     (\<forall>xs. mset (shuffle2 rnd xs) = mset xs)"

definition deal_new_pieces :: "session \<Rightarrow> draws \<Rightarrow> session" where
  "deal_new_pieces s rnd = s\<lparr>current_pieces := sample3 rnd\<rparr>"

text \<open>
  One run of the \<^verbatim>\<open>for name in all_pieces_choices\<close> loop, on the scratch board \<open>b\<close>;
  the session carries the list \<open>current_pieces\<close> being filled. Reading \<open>['board']\<close> from
  an error dictionary would raise \<open>KeyError\<close>.
\<close>

fun deal_pass :: "session \<Rightarrow> string list \<Rightarrow> int \<Rightarrow> py_error + (int \<times> session)" where
  "deal_pass s [] b = Inr (b, s)"
| "deal_pass s (name # names) b =
     (case can_place_piece s b name of
        Inl e \<Rightarrow> Inl e
      | Inr None \<Rightarrow> deal_pass s names b
      | Inr (Some placable_position) \<Rightarrow>
          (case try_move s b name placable_position of
             Inl e \<Rightarrow> Inl e
           | Inr (Failure msg) \<Rightarrow> Inl KeyError
           | Inr (Success r) \<Rightarrow>
               (let s' = s\<lparr>current_pieces := current_pieces s @ [name]\<rparr> in
                if length (current_pieces s') = 3 then Inr (res_board r, s')
                else deal_pass s' names (res_board r))))"

text \<open>The \<^verbatim>\<open>while True\<close> loop: it may run forever, and then the value is \<open>None\<close>.\<close>

partial_function (option) deal_loop :: "session \<Rightarrow> string list \<Rightarrow> int \<Rightarrow> (py_error + session) option"
where
  "deal_loop s all_pieces_choices b =
     (case deal_pass s all_pieces_choices b of
        Inl e \<Rightarrow> Some (Inl e)
      | Inr (b', s') \<Rightarrow>
          if length (current_pieces s') = 3 then Some (Inr s')
          else deal_loop s' all_pieces_choices b')"

declare deal_loop.simps [code]

definition guaranteed_deal_new_pieces :: "session \<Rightarrow> draws \<Rightarrow> (py_error + session) option" where
  "guaranteed_deal_new_pieces s rnd =
     (case deal_loop (s\<lparr>current_pieces := []\<rparr>) (shuffle1 rnd) (board s) of
        None \<Rightarrow> None
      | Some (Inl e) \<Rightarrow> Some (Inl e)
      | Some (Inr s') \<Rightarrow> Some (Inr (s'\<lparr>current_pieces := shuffle2 rnd (current_pieces s')\<rparr>)))"

subsection \<open>The constructor and \<^verbatim>\<open>make_move\<close>\<close>

text \<open>
  The sizes are natural numbers: a negative width makes \<open>_precompute_masks\<close> raise, and
  a negative height gives a session on which no placement is valid.
\<close>

definition init :: "nat \<times> nat \<Rightarrow> bool \<Rightarrow> draws \<Rightarrow> py_error + session" where
  "init board_size guaranteed rnd =
     (if fst board_size > 64 \<or> snd board_size > 64 then Inl ValueError
      else Inr (deal_new_pieces
                  \<lparr>width = fst board_size, height = snd board_size,
                   is_guranteed_valid_moves = guaranteed,
                   board = 0, score = 0, combo = - 1, not_combo_counter = 3,
                   score_increment = Float 0 0, score_incremental_acceleration = Float 0 0,
                   game_over = False, current_pieces = []\<rparr> rnd))"

text \<open>The part of \<open>make_move\<close> from the placement to the removal of the piece from the held list.\<close>

definition place_and_score ::
  "session \<Rightarrow> string \<Rightarrow> int \<Rightarrow> int \<Rightarrow> py_error + (session \<times> nat)"
where
  "place_and_score s piece_name m compact_mask =
     (let s1 = s\<lparr>board := board s OR m\<rparr>;
          s2 = s1\<lparr>score := score s1 + int (bit_count compact_mask)\<rparr>
      in case detect_lines s2 (board s2) of (lines_cleared, cleared_mask) \<Rightarrow>
           (case (if lines_cleared > 0 then clear_and_score s2 lines_cleared cleared_mask
                  else Inr (s2\<lparr>not_combo_counter := not_combo_counter s2 - 1\<rparr>)) of
              Inl e \<Rightarrow> Inl e
            | Inr s3 \<Rightarrow>
                Inr (s3\<lparr>current_pieces := remove1 piece_name (current_pieces s3)\<rparr>,
                     lines_cleared)))"

text \<open>The part of \<open>make_move\<close> after the deal: the terminal test and the result.\<close>

definition finish_move :: "session \<Rightarrow> nat \<Rightarrow> py_error + (outcome \<times> session)" where
  "finish_move s lines_cleared =
     (case get_possible_moves s of
        Inl e \<Rightarrow> Inl e
      | Inr possible_moves \<Rightarrow>
          (let s' = (if possible_moves = [] then s\<lparr>game_over := True\<rparr> else s) in
           Inr (Success \<lparr>res_board = board s', res_score = Some (score s'),
                         res_lines_cleared = lines_cleared, res_game_over = game_over s'\<rparr>, s')))"

text \<open>
  \<open>make_move\<close> returns the result and the session it leaves; \<open>Inl\<close> is an exception
  that leaves the call, and \<open>None\<close> is a guaranteed deal that never returns.
\<close>

definition make_move ::
  "session \<Rightarrow> draws \<Rightarrow> string \<Rightarrow> position \<Rightarrow> (py_error + (outcome \<times> session)) option"
where
  "make_move s rnd piece_name pos =
     (if game_over s then Some (Inr (Failure ''Game is over.'', s))
      else if piece_name \<notin> set (current_pieces s)
      then Some (Inr (Failure (''Piece '' @ [CHR 0x27] @ piece_name @ [CHR 0x27] @ '' unavailable.''), s))
      else
        (case is_valid_move s (board s) piece_name pos of
           Inl e \<Rightarrow> Some (Inl e)
         | Inr False \<Rightarrow> Some (Inr (Failure ''Invalid move.'', s))
         | Inr True \<Rightarrow>
             (case get_piece_mask s piece_name pos of
                Inl e \<Rightarrow> Some (Inl e)
              | Inr m \<Rightarrow>
                  (case map_of name_to_pieces piece_name of
                     None \<Rightarrow> Some (Inl KeyError)
                   | Some compact_mask \<Rightarrow>
                       (case place_and_score s piece_name m compact_mask of
                          Inl e \<Rightarrow> Some (Inl e)
                        | Inr (s1, lines_cleared) \<Rightarrow>
                          (case (if current_pieces s1 = []
                                 then (if is_guranteed_valid_moves s1
                                       then guaranteed_deal_new_pieces s1 rnd
                                       else Some (Inr (deal_new_pieces s1 rnd)))
                                 else Some (Inr s1)) of
                             None \<Rightarrow> None
                           | Some (Inl e) \<Rightarrow> Some (Inl e)
                           | Some (Inr s2) \<Rightarrow> Some (finish_move s2 lines_cleared)))))))"

subsection \<open>The solver (\<^verbatim>\<open>Solver.get_solution\<close>)\<close>

text \<open>
  \<open>next(recurse(...))\<close> runs the generator up to its first \<open>yield\<close>. \<open>first_yield f xs\<close>
  is a \<open>for\<close> loop over \<open>xs\<close> whose body \<open>f\<close> yields at most once before the caller
  stops: the first element with a value ends the search, an exception raised before that
  is raised, and \<open>None\<close> is a generator that ends without a value (\<open>StopIteration\<close>).
\<close>

fun first_yield :: "('a \<Rightarrow> py_error + 'b option) \<Rightarrow> 'a list \<Rightarrow> py_error + 'b option" where
  "first_yield f [] = Inr None"
| "first_yield f (x # xs) =
     (case f x of Inl e \<Rightarrow> Inl e | Inr (Some y) \<Rightarrow> Inr (Some y) | Inr None \<Rightarrow> first_yield f xs)"

lemma first_yield_cong [fundef_cong]:
  "xs = ys \<Longrightarrow> (\<And>x. x \<in> set ys \<Longrightarrow> f x = g x) \<Longrightarrow> first_yield f xs = first_yield g ys"
  by (induction ys arbitrary: xs) (auto split: sum.splits option.splits)





subsection \<open>The search as the specification words it\<close>





subsection \<open>The scoring transition as the specification words it\<close>

text \<open>
  Section 4.3, step 2 of the specification: the same statements as \<open>clear_and_score\<close>,
  except that the reset test of step (b) reads the value that \<open>not_combo_counter\<close> had
  before step (a) assigned 3. It is used only to compare with the code.
\<close>

definition clear_and_score_as_specified :: "session \<Rightarrow> nat \<Rightarrow> int \<Rightarrow> py_error + session" where
  "clear_and_score_as_specified s lines_cleared cleared_mask =
     (let not_combo_counter_before_reset = not_combo_counter s;
          s1 = s\<lparr>board := board s AND NOT cleared_mask\<rparr>;
          s2 = s1\<lparr>not_combo_counter := 3\<rparr>;
          s3 = (if not_combo_counter_before_reset + int lines_cleared \<le> 1
                then s2\<lparr>combo := - 1, score_increment := Float 0 0\<rparr> else s2);
          s4 = s3\<lparr>combo := combo s3 + 1\<rparr>;
          s5 = s4\<lparr>score_incremental_acceleration :=
                     match_combo (combo s4) (score_incremental_acceleration s4)\<rparr>;
          s6 = s5\<lparr>score_increment := fadd (score_increment s5) (score_incremental_acceleration s5)\<rparr>
      in case py_int (fmul (score_increment s6) (SCORE_MULTIPLIERS_get lines_cleared)) of
           Inl e \<Rightarrow> Inl e
         | Inr bonus \<Rightarrow> Inr (s6\<lparr>score := score s6 + bonus\<rparr>))"

subsection \<open>Concrete inputs\<close>

text \<open>Sessions used as concrete inputs: a board of the given size in the state the
  constructor leaves, holding the given pieces.\<close>

definition fresh_session :: "nat \<Rightarrow> nat \<Rightarrow> string list \<Rightarrow> session" where
  "fresh_session w h held =
     \<lparr>width = w, height = h, is_guranteed_valid_moves = True,
      board = 0, score = 0, combo = - 1, not_combo_counter = 3,
      score_increment = Float 0 0, score_incremental_acceleration = Float 0 0,
      game_over = False, current_pieces = held\<rparr>"

text \<open>Draws used as concrete inputs: the sample \<open>sq1, sq2, sq3\<close>, and shuffles that leave
  their list as it is.\<close>

definition plain_draws :: draws where
  "plain_draws =
     \<lparr>sample3 = [''sq1'', ''sq2'', ''sq3''], shuffle1 = all_piece_names, shuffle2 = (\<lambda>xs. xs)\<rparr>"

lemma plain_draws_ok: "draws_ok plain_draws"
  by (simp add: draws_ok_def plain_draws_def all_piece_names_def name_to_pieces_def)

text \<open>
  The pieces can be placed one after the other in the order of the list, each at some
  position of the board where \<open>try_move\<close> accepts it, on the board that the one before left
  (lines cleared).
\<close>

fun seq_placeable :: "session \<Rightarrow> int \<Rightarrow> string list \<Rightarrow> bool" where
  "seq_placeable s b [] = True"
| "seq_placeable s b (name # names) =
     list_ex (\<lambda>pos. case try_move s b name pos of
                       Inr (Success r) \<Rightarrow> seq_placeable s (res_board r) names
                     | _ \<Rightarrow> False)
             (positions s)"

text \<open>Draws whose last shuffle exchanges the first two names.\<close>

definition swap_draws :: draws where
  "swap_draws =
     \<lparr>sample3 = [''sq1'', ''sq2'', ''sq3''], shuffle1 = all_piece_names,
      shuffle2 = (\<lambda>xs. case xs of a # b # rest \<Rightarrow> b # a # rest | _ \<Rightarrow> xs)\<rparr>"

section \<open>Properties\<close>

subsection \<open>Catalog facts\<close>

lemma name_to_size_keys: "map fst name_to_size = all_piece_names"
  by (simp add: name_to_size_def all_piece_names_def name_to_pieces_def)

lemma catalog_check:
  "\<forall>name\<in>set all_piece_names.
     (case map_of name_to_pieces name of
        None \<Rightarrow> False
      | Some cm \<Rightarrow>
          (case map_of name_to_size name of
             None \<Rightarrow> False
           | Some (pw, ph) \<Rightarrow> 0 < pw \<and> 0 < ph \<and> cm AND (2 ^ pw - 1) \<noteq> 0))"
  by (simp add: all_piece_names_def name_to_pieces_def name_to_size_def)

lemma catalog_sizes:
  assumes "name \<in> set all_piece_names"
  obtains cm pw ph where "map_of name_to_pieces name = Some cm"
    and "map_of name_to_size name = Some (pw, ph)"
    and "0 < pw" and "0 < ph" and "cm AND (2 ^ pw - 1) \<noteq> 0"
  using catalog_check assms by (fastforce split: option.splits)

subsection \<open>Bits of the masks\<close>

lemma bit_pow2_minus_1: "bit ((2::int) ^ w - 1) n \<longleftrightarrow> n < w"
  by (simp flip: mask_eq_exp_minus_1 add: bit_mask_iff)

lemma bit_fold_or:
  "bit (fold (\<lambda>r (m::int). m OR f r) rs a) n \<longleftrightarrow> bit a n \<or> (\<exists>r\<in>set rs. bit (f r) n)"
  by (induction rs arbitrary: a) (auto simp: bit_or_iff)

lemma bit_row_mask: "bit (row_mask s r) n \<longleftrightarrow> r * width s \<le> n \<and> n < r * width s + width s"
  by (auto simp: row_mask_def bit_pow2_minus_1 bit_push_bit_iff)

lemma bit_col_mask: "bit (col_mask s c) n \<longleftrightarrow> (\<exists>r<height s. n = r * width s + c)"
  by (auto simp: col_mask_def bit_fold_or bit_exp_iff)

lemma bit_scaled_mask:
  "bit (scaled_mask w cm pw ph) n \<longleftrightarrow>
     (\<exists>r<ph. r * w \<le> n \<and> n - r * w < pw \<and> bit cm (r * pw + (n - r * w)))"
  by (auto simp: scaled_mask_def bit_fold_or bit_push_bit_iff bit_and_iff bit_pow2_minus_1
        bit_drop_bit_eq)

lemma full_iff_bits: "(b::int) AND m = m \<longleftrightarrow> (\<forall>k. bit m k \<longrightarrow> bit b k)"
  by (auto simp: bit_eq_iff bit_and_iff)

lemma row_mask_nonzero: "0 < width s \<Longrightarrow> bit (row_mask s r) (r * width s)"
  by (simp add: bit_row_mask)

lemma col_mask_nonzero: "0 < height s \<Longrightarrow> bit (col_mask s c) c"
  by (auto simp: bit_col_mask intro: exI[of _ 0])

subsection \<open>Line detection\<close>

lemma scan_masks_fst:
  "fst (scan_masks b ms (n, cm)) = n + length (filter (\<lambda>m. b AND m = m) ms)"
  by (induction ms arbitrary: n cm) auto

lemma bit_scan_masks_snd:
  "bit (snd (scan_masks b ms (n, cm))) k \<longleftrightarrow> bit cm k \<or> (\<exists>m\<in>set ms. b AND m = m \<and> bit m k)"
  by (induction ms arbitrary: n cm) (auto simp: bit_or_iff)

lemma detect_lines_fst:
  "fst (detect_lines s b) =
     length (filter (\<lambda>m. b AND m = m) (row_masks s)) + length (filter (\<lambda>m. b AND m = m) (col_masks s))"
  unfolding detect_lines_def
  by (metis scan_masks_fst add_0 prod.collapse)

lemma bit_detect_lines_snd:
  "bit (snd (detect_lines s b)) k \<longleftrightarrow>
     (\<exists>m\<in>set (row_masks s @ col_masks s). b AND m = m \<and> bit m k)"
proof -
  obtain n cm where r: "scan_masks b (row_masks s) (0, 0) = (n, cm)"
    by (cases "scan_masks b (row_masks s) (0, 0)")
  have "bit cm k \<longleftrightarrow> (\<exists>m\<in>set (row_masks s). b AND m = m \<and> bit m k)"
    using bit_scan_masks_snd[of b "row_masks s" 0 0 k] r by simp
  then show ?thesis
    unfolding detect_lines_def r by (auto simp: bit_scan_masks_snd)
qed

lemma detect_lines_zero_iff:
  "fst (detect_lines s b) = 0 \<longleftrightarrow> (\<forall>m\<in>set (row_masks s @ col_masks s). b AND m \<noteq> m)"
  by (auto simp: detect_lines_fst filter_empty_conv)

lemma line_mask_has_bit:
  assumes "0 < width s" "0 < height s" "m \<in> set (row_masks s @ col_masks s)"
  shows "\<exists>k. bit m k"
proof -
  from assms(3) consider r where "m = row_mask s r" | c where "m = col_mask s c"
    by (auto simp: row_masks_def col_masks_def)
  then show ?thesis
  proof cases
    case 1
    then show ?thesis using row_mask_nonzero[OF assms(1)] by blast
  next
    case 2
    then show ?thesis using col_mask_nonzero[OF assms(2)] by blast
  qed
qed

lemma detect_and_clear_lines_alt:
  "detect_and_clear_lines s b =
     (if 0 < fst (detect_lines s b) then b AND NOT (snd (detect_lines s b)) else b,
      fst (detect_lines s b))"
  by (simp add: detect_and_clear_lines_def split: prod.splits)

lemma bit_cleared_board:
  "bit (fst (detect_and_clear_lines s b)) k \<longleftrightarrow>
     bit b k \<and> \<not> (\<exists>m\<in>set (row_masks s @ col_masks s). b AND m = m \<and> bit m k)"
proof (cases "fst (detect_lines s b) = 0")
  case True
  then show ?thesis
    using detect_lines_zero_iff[of s b]
    by (auto simp: detect_and_clear_lines_def split: prod.splits)
next
  case False
  then show ?thesis
    using bit_detect_lines_snd[of s b k]
    by (auto simp: detect_and_clear_lines_def bit_and_iff bit_not_iff split: prod.splits)
qed

lemma detect_and_clear_lines_snd: "snd (detect_and_clear_lines s b) = fst (detect_lines s b)"
  by (simp add: detect_and_clear_lines_def split: prod.splits)

lemma no_full_line_after_clear:
  assumes "0 < width s" "0 < height s" "m \<in> set (row_masks s @ col_masks s)"
  shows "fst (detect_and_clear_lines s b) AND m \<noteq> m"
proof
  let ?b' = "fst (detect_and_clear_lines s b)"
  assume full': "?b' AND m = m"
  obtain k where k: "bit m k" using line_mask_has_bit[OF assms] by blast
  have sub: "\<And>j. bit m j \<Longrightarrow> bit ?b' j" using full' by (simp add: full_iff_bits)
  then have "\<And>j. bit m j \<Longrightarrow> bit b j" by (simp add: bit_cleared_board)
  then have "b AND m = m" by (simp add: full_iff_bits)
  then have "\<not> bit ?b' k" using k assms(3) by (auto simp: bit_cleared_board)
  with sub[OF k] show False by simp
qed

subsection \<open>What the methods read\<close>

lemma get_piece_mask_cong:
  "width s' = width s \<Longrightarrow> get_piece_mask s' = get_piece_mask s"
  by (intro ext) (simp add: get_piece_mask_def name_to_piece_masks_def split: prod.splits option.splits)

lemma is_valid_move_cong:
  "width s' = width s \<Longrightarrow> height s' = height s \<Longrightarrow> is_valid_move s' = is_valid_move s"
  by (intro ext)
     (simp add: is_valid_move_def get_piece_mask_def name_to_piece_masks_def
           split: prod.splits option.splits)

lemma positions_cong:
  "width s' = width s \<Longrightarrow> height s' = height s \<Longrightarrow> positions s' = positions s"
  by (simp add: positions_def)

lemma row_masks_cong:
  "width s' = width s \<Longrightarrow> height s' = height s \<Longrightarrow> row_masks s' = row_masks s"
  by (simp add: row_masks_def row_mask_def)

lemma col_masks_cong:
  "width s' = width s \<Longrightarrow> height s' = height s \<Longrightarrow> col_masks s' = col_masks s"
  by (simp add: col_masks_def col_mask_def)

lemma detect_lines_cong:
  "width s' = width s \<Longrightarrow> height s' = height s \<Longrightarrow> detect_lines s' = detect_lines s"
  using row_masks_cong[of s' s] col_masks_cong[of s' s]
  by (intro ext) (simp add: detect_lines_def)

lemma detect_and_clear_lines_cong:
  "width s' = width s \<Longrightarrow> height s' = height s \<Longrightarrow> detect_and_clear_lines s' = detect_and_clear_lines s"
  using detect_lines_cong[of s' s] by (intro ext) (simp add: detect_and_clear_lines_def)

lemma can_place_piece_cong:
  "width s' = width s \<Longrightarrow> height s' = height s \<Longrightarrow> can_place_piece s' = can_place_piece s"
  using is_valid_move_cong[of s' s] positions_cong[of s' s]
  by (intro ext) (simp add: can_place_piece_def)

subsection \<open>Validity of a placement of a catalog piece\<close>

lemma shift_nonneg: "0 \<le> px \<Longrightarrow> 0 \<le> py \<Longrightarrow> \<not> py * int w + px < 0"
  by (simp add: leD)

lemma get_piece_mask_catalog:
  assumes "map_of name_to_pieces name = Some cm" and "map_of name_to_size name = Some (pw, ph)"
    and "0 \<le> px" and "0 \<le> py"
  shows "get_piece_mask s name (px, py) =
           Inr (push_bit (nat (py * int (width s) + px)) (scaled_mask (width s) cm pw ph))"
  using assms shift_nonneg[of px py "width s"]
  by (simp add: get_piece_mask_def name_to_piece_masks_def)

lemma is_valid_move_catalog:
  assumes "map_of name_to_pieces name = Some cm" and "map_of name_to_size name = Some (pw, ph)"
  shows "is_valid_move s b name (px, py) =
           Inr (0 \<le> px \<and> 0 \<le> py \<and> px + int pw \<le> int (width s) \<and> py + int ph \<le> int (height s) \<and>
                b AND push_bit (nat (py * int (width s) + px)) (scaled_mask (width s) cm pw ph) = 0)"
proof (cases "0 \<le> px \<and> 0 \<le> py")
  case True
  then show ?thesis
    using assms get_piece_mask_catalog[OF assms, of px py s]
    by (auto simp: is_valid_move_def)
next
  case False
  then show ?thesis
    using assms by (auto simp: is_valid_move_def)
qed

lemma is_valid_move_no_error:
  assumes "name \<in> set all_piece_names"
  shows "\<exists>v. is_valid_move s b name pos = Inr v"
proof -
  obtain cm pw ph where "map_of name_to_pieces name = Some cm" "map_of name_to_size name = Some (pw, ph)"
    using assms by (rule catalog_sizes)
  then show ?thesis
    by (cases pos) (simp add: is_valid_move_catalog)
qed

lemma is_valid_move_get_piece_mask:
  assumes "is_valid_move s b name pos = Inr True"
  shows "\<exists>m. get_piece_mask s name pos = Inr m \<and> b AND m = 0"
  using assms
  by (auto simp: is_valid_move_def split: option.splits prod.splits if_splits sum.splits)

subsection \<open>Loops over catalog names raise nothing\<close>

lemma filter_raising_total:
  assumes "\<And>x. x \<in> set xs \<Longrightarrow> \<exists>v. f x = Inr v"
  shows "filter_raising f xs = Inr (filter (\<lambda>x. f x = Inr True) xs)"
  using assms
proof (induction xs)
  case Nil
  then show ?case by simp
next
  case (Cons x xs)
  then obtain v where "f x = Inr v" by auto
  with Cons show ?case by auto
qed

lemma find_first_total:
  assumes "\<And>x. x \<in> set xs \<Longrightarrow> \<exists>v. f x = Inr v"
  shows "find_first f xs = Inr (List.find (\<lambda>x. f x = Inr True) xs)"
  using assms
proof (induction xs)
  case Nil
  then show ?case by simp
next
  case (Cons x xs)
  then obtain v where "f x = Inr v" by auto
  with Cons show ?case by (cases v) auto
qed

lemma can_place_piece_catalog:
  assumes "name \<in> set all_piece_names"
  shows "can_place_piece s b name =
           Inr (List.find (\<lambda>pos. is_valid_move s b name pos = Inr True) (positions s))"
  unfolding can_place_piece_def
  by (rule find_first_total) (rule is_valid_move_no_error[OF assms])

lemma dict_set_nonempty: "dict_set d k v \<noteq> []"
  by (cases d) (auto split: if_splits)

lemma possible_moves_loop_catalog:
  assumes "set names \<subseteq> set all_piece_names"
  shows "\<exists>pm. possible_moves_loop s names acc = Inr pm \<and>
           (pm = [] \<longleftrightarrow> acc = [] \<and>
              (\<forall>name\<in>set names. \<forall>pos\<in>set (positions s). is_valid_move s (board s) name pos \<noteq> Inr True))"
  using assms
proof (induction names arbitrary: acc)
  case Nil
  then show ?case by simp
next
  case (Cons name names)
  let ?moves = "filter (\<lambda>pos. is_valid_move s (board s) name pos = Inr True) (positions s)"
  let ?acc' = "if ?moves \<noteq> [] then dict_set acc name ?moves else acc"
  have fr: "filter_raising (is_valid_move s (board s) name) (positions s) = Inr ?moves"
    by (rule filter_raising_total) (use Cons.prems in \<open>auto intro: is_valid_move_no_error\<close>)
  from Cons.prems have sub: "set names \<subseteq> set all_piece_names" by simp
  obtain pm where pm: "possible_moves_loop s names ?acc' = Inr pm"
    and iff: "pm = [] \<longleftrightarrow> ?acc' = [] \<and>
      (\<forall>n\<in>set names. \<forall>pos\<in>set (positions s). is_valid_move s (board s) n pos \<noteq> Inr True)"
    using Cons.IH[OF sub, of ?acc'] by blast
  have step: "possible_moves_loop s (name # names) acc = Inr pm"
    using pm by (simp add: fr)
  have acc': "?acc' = [] \<longleftrightarrow> acc = [] \<and> ?moves = []"
    by (simp add: dict_set_nonempty)
  have moves: "?moves = [] \<longleftrightarrow> (\<forall>pos\<in>set (positions s). is_valid_move s (board s) name pos \<noteq> Inr True)"
    by (simp add: filter_empty_conv)
  show ?case
    unfolding step using iff acc' moves by auto
qed

lemma get_possible_moves_catalog:
  assumes "set (current_pieces s) \<subseteq> set all_piece_names"
  shows "\<exists>pm. get_possible_moves s = Inr pm \<and>
           (pm = [] \<longleftrightarrow>
              (\<forall>name\<in>set (current_pieces s). \<forall>pos\<in>set (positions s).
                 is_valid_move s (board s) name pos \<noteq> Inr True))"
  using possible_moves_loop_catalog[OF assms, of s "[]"]
  by (simp add: get_possible_moves_def)

subsection \<open>Boards with a free cell\<close>

definition nonfull :: "session \<Rightarrow> int \<Rightarrow> bool" where
  "nonfull s b \<longleftrightarrow> (\<exists>x<width s. \<exists>y<height s. \<not> bit b (y * width s + x))"

lemma sq1_entry:
  "map_of name_to_pieces ''sq1'' = Some 1"
  "map_of name_to_size ''sq1'' = Some (1, 1)"
  "''sq1'' \<in> set all_piece_names"
  by (simp_all add: name_to_pieces_def name_to_size_def all_piece_names_def)

lemma scaled_mask_sq1: "scaled_mask w 1 (Suc 0) (Suc 0) = 1"
  by (simp add: scaled_mask_def)

lemma nat_cell_index: "nat (int y * int w + int x) = y * w + x"
  by (metis nat_int of_nat_add of_nat_mult)

lemma is_valid_move_sq1:
  "is_valid_move s b ''sq1'' (int x, int y) =
     Inr (x < width s \<and> y < height s \<and> \<not> bit b (y * width s + x))"
  using is_valid_move_catalog[OF sq1_entry(1,2), of s b "int x" "int y"]
  by (auto simp: scaled_mask_sq1 nat_cell_index and_exp_eq_0_iff_not_bit)

lemma in_positions:
  "(px, py) \<in> set (positions s) \<longleftrightarrow> 0 \<le> px \<and> px < int (width s) \<and> 0 \<le> py \<and> py < int (height s)"
proof
  assume "(px, py) \<in> set (positions s)"
  then show "0 \<le> px \<and> px < int (width s) \<and> 0 \<le> py \<and> py < int (height s)"
    by (auto simp: positions_def)
next
  assume a: "0 \<le> px \<and> px < int (width s) \<and> 0 \<le> py \<and> py < int (height s)"
  then have "nat px < width s" "nat py < height s" "px = int (nat px)" "py = int (nat py)"
    by auto
  then show "(px, py) \<in> set (positions s)"
    unfolding positions_def by (metis (no_types, lifting) atLeast0LessThan image_eqI lessThan_iff
        set_concat set_map set_upt UN_iff)
qed

lemma nonfull_iff_sq1:
  "nonfull s b \<longleftrightarrow> (\<exists>pos\<in>set (positions s). is_valid_move s b ''sq1'' pos = Inr True)"
proof
  assume "nonfull s b"
  then obtain x y where xy: "x < width s" "y < height s" "\<not> bit b (y * width s + x)"
    by (auto simp: nonfull_def)
  then have "(int x, int y) \<in> set (positions s)" by (simp add: in_positions)
  moreover have "is_valid_move s b ''sq1'' (int x, int y) = Inr True"
    using xy by (simp add: is_valid_move_sq1)
  ultimately show "\<exists>pos\<in>set (positions s). is_valid_move s b ''sq1'' pos = Inr True" by blast
next
  assume "\<exists>pos\<in>set (positions s). is_valid_move s b ''sq1'' pos = Inr True"
  then obtain px py where p: "(px, py) \<in> set (positions s)"
    and v: "is_valid_move s b ''sq1'' (px, py) = Inr True" by auto
  from p have "px = int (nat px)" "py = int (nat py)" by (auto simp: in_positions)
  with v have "is_valid_move s b ''sq1'' (int (nat px), int (nat py)) = Inr True" by simp
  then show "nonfull s b"
    unfolding is_valid_move_sq1 nonfull_def by auto
qed

lemma valid_imp_dims:
  assumes "name \<in> set all_piece_names" and "is_valid_move s b name pos = Inr True"
  shows "0 < width s \<and> 0 < height s"
proof -
  obtain cm pw ph where e: "map_of name_to_pieces name = Some cm" "map_of name_to_size name = Some (pw, ph)"
    and pos: "0 < pw" "0 < ph"
    using assms(1) by (rule catalog_sizes)
  obtain px py where [simp]: "pos = (px, py)" by (cases pos)
  from assms(2) show ?thesis
    using pos by (simp add: is_valid_move_catalog[OF e])
qed

lemma valid_imp_in_positions:
  assumes "name \<in> set all_piece_names" and "is_valid_move s b name pos = Inr True"
  shows "pos \<in> set (positions s)"
proof -
  obtain cm pw ph where e: "map_of name_to_pieces name = Some cm" "map_of name_to_size name = Some (pw, ph)"
    and pos: "0 < pw" "0 < ph"
    using assms(1) by (rule catalog_sizes)
  obtain px py where [simp]: "pos = (px, py)" by (cases pos)
  from assms(2) show ?thesis
    using pos by (simp add: is_valid_move_catalog[OF e] in_positions)
qed

lemma low_row_bit:
  assumes "(cm::int) AND (2 ^ pw - 1) \<noteq> 0"
  shows "\<exists>j<pw. bit cm j"
proof -
  from assms obtain j where "bit (cm AND (2 ^ pw - 1)) j"
    by (auto simp: bit_eq_iff)
  then show ?thesis by (auto simp: bit_and_iff bit_pow2_minus_1)
qed

lemma valid_imp_nonfull:
  assumes "name \<in> set all_piece_names" and "is_valid_move s b name pos = Inr True"
  shows "nonfull s b"
proof -
  obtain cm pw ph where e: "map_of name_to_pieces name = Some cm" "map_of name_to_size name = Some (pw, ph)"
    and sz: "0 < pw" "0 < ph" and low: "cm AND (2 ^ pw - 1) \<noteq> 0"
    using assms(1) by (rule catalog_sizes)
  obtain px py where [simp]: "pos = (px, py)" by (cases pos)
  let ?k = "nat (py * int (width s) + px)"
  let ?m = "push_bit ?k (scaled_mask (width s) cm pw ph)"
  from assms(2) have v: "0 \<le> px" "0 \<le> py" "px + int pw \<le> int (width s)"
    "py + int ph \<le> int (height s)" "b AND ?m = 0"
    by (simp_all add: is_valid_move_catalog[OF e])
  obtain j where j: "j < pw" "bit cm j" using low_row_bit[OF low] by blast
  have "bit (scaled_mask (width s) cm pw ph) j"
    unfolding bit_scaled_mask using j sz by (intro exI[of _ 0]) simp
  then have "bit ?m (?k + j)" by (simp add: bit_push_bit_iff)
  moreover have "\<not> bit (b AND ?m) (?k + j)"
    using v(5) by simp
  ultimately have nb: "\<not> bit b (?k + j)"
    by (simp add: bit_and_iff)
  have k: "?k + j = nat py * width s + (nat px + j)"
    using v(1,2) by (simp add: nat_add_distrib nat_mult_distrib)
  have "nat px + j < width s" "nat py < height s" using v j sz by auto
  then show ?thesis
    unfolding nonfull_def using nb k by metis
qed

lemma nonfull_after_clear:
  assumes "0 < width s" and "0 < height s"
  shows "nonfull s (fst (detect_and_clear_lines s b))"
proof -
  let ?b' = "fst (detect_and_clear_lines s b)"
  have "row_mask s 0 \<in> set (row_masks s @ col_masks s)"
    using assms(2) by (auto simp: row_masks_def)
  then have "?b' AND row_mask s 0 \<noteq> row_mask s 0"
    by (rule no_full_line_after_clear[OF assms])
  then obtain k where "bit (row_mask s 0) k" "\<not> bit ?b' k"
    by (auto simp: full_iff_bits)
  then have "k < width s" "\<not> bit ?b' (0 * width s + k)" by (simp_all add: bit_row_mask)
  then show ?thesis
    unfolding nonfull_def using assms(2) by blast
qed

lemma nonfull_cong:
  "width s' = width s \<Longrightarrow> height s' = height s \<Longrightarrow> nonfull s' = nonfull s"
  by (intro ext) (simp add: nonfull_def)

subsection \<open>A successful simulation\<close>

lemma try_move_valid:
  assumes "set (current_pieces s) \<subseteq> set all_piece_names"
    and "is_valid_move s b name pos = Inr True"
  shows "\<exists>m r. get_piece_mask s name pos = Inr m \<and> try_move s b name pos = Inr (Success r) \<and>
           res_board r = fst (detect_and_clear_lines s (b OR m)) \<and>
           res_lines_cleared r = snd (detect_and_clear_lines s (b OR m))"
proof -
  obtain m where m: "get_piece_mask s name pos = Inr m"
    using is_valid_move_get_piece_mask[OF assms(2)] by blast
  obtain pm where pm: "get_possible_moves s = Inr pm"
    using get_possible_moves_catalog[OF assms(1)] by blast
  show ?thesis
    using assms(2) m pm by (simp add: try_move_def split: prod.splits)
qed


subsection \<open>Sequences of placements\<close>

text \<open>\<open>placed s b name pos b'\<close>: the catalog piece is valid at the position on \<open>b\<close>, and \<open>b'\<close> is
  the board after the placement and the clearing of lines.\<close>

definition placed :: "session \<Rightarrow> int \<Rightarrow> string \<Rightarrow> position \<Rightarrow> int \<Rightarrow> bool" where
  "placed s b name pos b' \<longleftrightarrow>
     name \<in> set all_piece_names \<and> is_valid_move s b name pos = Inr True \<and>
     (\<exists>m. get_piece_mask s name pos = Inr m \<and> b' = fst (detect_and_clear_lines s (b OR m)))"

inductive follows :: "session \<Rightarrow> int \<Rightarrow> string list \<Rightarrow> int \<Rightarrow> bool" for s :: session where
  follows_Nil: "follows s b [] b"
| follows_Cons: "placed s b name pos b1 \<Longrightarrow> follows s b1 names b' \<Longrightarrow> follows s b (name # names) b'"

lemma placed_cong:
  assumes "width s' = width s" and "height s' = height s"
  shows "placed s' = placed s"
  using is_valid_move_cong[OF assms] get_piece_mask_cong[OF assms(1)]
    detect_and_clear_lines_cong[OF assms]
  by (intro ext) (simp add: placed_def)

lemma follows_cong_imp:
  assumes "follows s b names b'" and "width s' = width s" and "height s' = height s"
  shows "follows s' b names b'"
  using assms(1)
proof induction
  case (follows_Nil b)
  show ?case by (rule follows.follows_Nil)
next
  case (follows_Cons b name pos b1 names b')
  from follows_Cons.hyps(1) have "placed s' b name pos b1"
    by (simp add: placed_cong[OF assms(2,3)])
  then show ?case using follows_Cons.IH by (rule follows.follows_Cons)
qed

lemma follows_append:
  assumes "follows s b xs b1" and "follows s b1 ys b2"
  shows "follows s b (xs @ ys) b2"
  using assms by induction (auto intro: follows.intros)

lemma placed_nonfull:
  assumes "placed s b name pos b'"
  shows "nonfull s b'"
proof -
  from assms have "0 < width s \<and> 0 < height s"
    unfolding placed_def using valid_imp_dims by blast
  then show ?thesis
    using assms nonfull_after_clear unfolding placed_def by auto
qed

subsection \<open>The guaranteed deal\<close>

lemma find_sq1:
  assumes "nonfull s b"
  shows "\<exists>pos. can_place_piece s b ''sq1'' = Inr (Some pos)"
proof -
  from assms have "List.find (\<lambda>pos. is_valid_move s b ''sq1'' pos = Inr True) (positions s) \<noteq> None"
    by (auto simp: nonfull_iff_sq1 find_None_iff)
  then show ?thesis
    by (auto simp: can_place_piece_catalog[OF sq1_entry(3)])
qed

lemma can_place_piece_Some:
  assumes "name \<in> set all_piece_names" and "can_place_piece s b name = Inr (Some pos)"
  shows "is_valid_move s b name pos = Inr True"
  using assms by (auto simp: can_place_piece_catalog find_Some_iff)

lemma deal_pass_collects:
  assumes "set cs \<subseteq> set all_piece_names"
    and "set (current_pieces s) \<subseteq> set all_piece_names"
    and "length (current_pieces s) < 3"
  shows "\<exists>b' new. deal_pass s cs b = Inr (b', s\<lparr>current_pieces := current_pieces s @ new\<rparr>) \<and>
           set new \<subseteq> set cs \<and> length (current_pieces s @ new) \<le> 3 \<and> follows s b new b' \<and>
           (''sq1'' \<in> set cs \<longrightarrow> nonfull s b \<longrightarrow> new \<noteq> []) \<and>
           (nonfull s b \<longrightarrow> nonfull s b')"
  using assms
proof (induction cs arbitrary: s b)
  case Nil
  then show ?case by (auto intro: follows.intros exI[of _ "[]"])
next
  case (Cons name cs)
  from Cons.prems have name: "name \<in> set all_piece_names" and cs: "set cs \<subseteq> set all_piece_names"
    by auto
  obtain found where found: "can_place_piece s b name = Inr found"
    using can_place_piece_catalog[OF name] by blast
  show ?case
  proof (cases found)
    case None
    obtain b' new where IH: "deal_pass s cs b = Inr (b', s\<lparr>current_pieces := current_pieces s @ new\<rparr>)"
      "set new \<subseteq> set cs" "length (current_pieces s @ new) \<le> 3" "follows s b new b'"
      "''sq1'' \<in> set cs \<longrightarrow> nonfull s b \<longrightarrow> new \<noteq> []" "nonfull s b \<longrightarrow> nonfull s b'"
      using Cons.IH[OF cs Cons.prems(2,3), of b] by blast
    have "name = ''sq1'' \<Longrightarrow> \<not> nonfull s b"
      using found None find_sq1[of s b] by auto
    then have "''sq1'' \<in> set (name # cs) \<longrightarrow> nonfull s b \<longrightarrow> new \<noteq> []"
      using IH(5) by auto
    moreover have "deal_pass s (name # cs) b = Inr (b', s\<lparr>current_pieces := current_pieces s @ new\<rparr>)"
      using found None IH(1) by simp
    ultimately show ?thesis
      using IH(2,3,4,6) by (intro exI[of _ b'] exI[of _ new]) auto
  next
    case (Some pos)
    then have valid: "is_valid_move s b name pos = Inr True"
      using found can_place_piece_Some[OF name] by simp
    obtain m r where m: "get_piece_mask s name pos = Inr m"
      and r: "try_move s b name pos = Inr (Success r)"
      and rb: "res_board r = fst (detect_and_clear_lines s (b OR m))"
      using try_move_valid[OF Cons.prems(2) valid] by blast
    have pl: "placed s b name pos (res_board r)"
      using name valid m rb by (auto simp: placed_def)
    let ?s' = "s\<lparr>current_pieces := current_pieces s @ [name]\<rparr>"
    show ?thesis
    proof (cases "length (current_pieces ?s') = 3")
      case True
      then have "deal_pass s (name # cs) b = Inr (res_board r, s\<lparr>current_pieces := current_pieces s @ [name]\<rparr>)"
        using found Some r by simp
      moreover have "follows s b [name] (res_board r)"
        using pl by (auto intro: follows.intros)
      ultimately show ?thesis
        using True placed_nonfull[OF pl]
        by (intro exI[of _ "res_board r"] exI[of _ "[name]"]) auto
    next
      case False
      then have len: "length (current_pieces ?s') < 3" using Cons.prems(3) by simp
      have sub: "set (current_pieces ?s') \<subseteq> set all_piece_names"
        using Cons.prems(2) name by simp
      obtain b' new where IH: "deal_pass ?s' cs (res_board r) = Inr (b', ?s'\<lparr>current_pieces := current_pieces ?s' @ new\<rparr>)"
        "set new \<subseteq> set cs" "length (current_pieces ?s' @ new) \<le> 3" "follows ?s' (res_board r) new b'"
        "nonfull ?s' (res_board r) \<longrightarrow> nonfull ?s' b'"
        using Cons.IH[OF cs sub len, of "res_board r"] by blast
      have step: "deal_pass s (name # cs) b = Inr (b', s\<lparr>current_pieces := current_pieces s @ (name # new)\<rparr>)"
        using found Some r False IH(1) by simp
      have "follows s (res_board r) new b'"
        using follows_cong_imp[OF IH(4), of s] by simp
      with pl have fol: "follows s b (name # new) b'"
        by (rule follows.follows_Cons)
      have nf: "nonfull s b'"
        using IH(5) placed_nonfull[OF pl] by (simp add: nonfull_def)
      show ?thesis
        using step fol nf IH(2,3)
        by (intro exI[of _ b'] exI[of _ "name # new"]) auto
    qed
  qed
qed

lemma deal_loop_terminates:
  assumes "set cs \<subseteq> set all_piece_names" and "''sq1'' \<in> set cs"
    and "set (current_pieces s) \<subseteq> set all_piece_names"
    and "length (current_pieces s) < 3" and "nonfull s b"
  shows "\<exists>new b'. deal_loop s cs b = Some (Inr (s\<lparr>current_pieces := current_pieces s @ new\<rparr>)) \<and>
           length (current_pieces s @ new) = 3 \<and> set new \<subseteq> set cs \<and> follows s b new b'"
  using assms(3,4,5)
proof (induction "3 - length (current_pieces s)" arbitrary: s b rule: less_induct)
  case less
  obtain b1 new1 where p: "deal_pass s cs b = Inr (b1, s\<lparr>current_pieces := current_pieces s @ new1\<rparr>)"
    "set new1 \<subseteq> set cs" "length (current_pieces s @ new1) \<le> 3" "follows s b new1 b1"
    "new1 \<noteq> []" "nonfull s b1"
    using deal_pass_collects[OF assms(1) less.prems(1,2), of b] assms(2) less.prems(3) by blast
  let ?s1 = "s\<lparr>current_pieces := current_pieces s @ new1\<rparr>"
  show ?case
  proof (cases "length (current_pieces ?s1) = 3")
    case True
    then have "deal_loop s cs b = Some (Inr ?s1)"
      using p(1) by (subst deal_loop.simps) simp
    then show ?thesis using True p(2,4) by auto
  next
    case False
    then have len: "length (current_pieces ?s1) < 3" using p(3) by simp
    have dec: "3 - length (current_pieces ?s1) < 3 - length (current_pieces s)"
      using p(5) less.prems(2) by (cases new1) auto
    have sub: "set (current_pieces ?s1) \<subseteq> set all_piece_names"
      using less.prems(1) p(2) assms(1) by auto
    have nf: "nonfull ?s1 b1" using p(6) by (simp add: nonfull_def)
    obtain new2 b2 where q: "deal_loop ?s1 cs b1 = Some (Inr (?s1\<lparr>current_pieces := current_pieces ?s1 @ new2\<rparr>))"
      "length (current_pieces ?s1 @ new2) = 3" "set new2 \<subseteq> set cs" "follows ?s1 b1 new2 b2"
      using less.hyps[OF dec sub len nf] by blast
    have "deal_loop s cs b = deal_loop ?s1 cs b1"
      using p(1) False by (subst deal_loop.simps) simp
    then have "deal_loop s cs b = Some (Inr (s\<lparr>current_pieces := current_pieces s @ (new1 @ new2)\<rparr>))"
      using q(1) by simp
    moreover have "follows s b (new1 @ new2) b2"
      using follows_append[OF p(4) follows_cong_imp[OF q(4), of s]] by simp
    ultimately show ?thesis
      using q(2,3) p(2) by (intro exI[of _ "new1 @ new2"] exI[of _ b2]) auto
  qed
qed

subsection \<open>The steps of \<open>make_move\<close>\<close>

lemma draws_ok_shuffle1:
  assumes "draws_ok rnd"
  shows "set (shuffle1 rnd) = set all_piece_names"
  using assms unfolding draws_ok_def by (metis mset_eq_setD)

lemma draws_ok_shuffle2:
  assumes "draws_ok rnd"
  shows "set (shuffle2 rnd xs) = set xs" and "length (shuffle2 rnd xs) = length xs"
  using assms unfolding draws_ok_def by (metis mset_eq_setD, metis mset_eq_length)

lemma guaranteed_deal_total:
  assumes "draws_ok rnd" and "nonfull s (board s)"
  shows "\<exists>cur b'. guaranteed_deal_new_pieces s rnd = Some (Inr (s\<lparr>current_pieces := shuffle2 rnd cur\<rparr>)) \<and>
           length cur = 3 \<and> set cur \<subseteq> set all_piece_names \<and> follows s (board s) cur b'"
proof -
  let ?s0 = "s\<lparr>current_pieces := []\<rparr>"
  have cs: "set (shuffle1 rnd) \<subseteq> set all_piece_names" "''sq1'' \<in> set (shuffle1 rnd)"
    using draws_ok_shuffle1[OF assms(1)] sq1_entry(3) by auto
  have nf: "nonfull ?s0 (board s)" using assms(2) by (simp add: nonfull_def)
  obtain new b' where d: "deal_loop ?s0 (shuffle1 rnd) (board s) =
        Some (Inr (?s0\<lparr>current_pieces := current_pieces ?s0 @ new\<rparr>))"
    "length (current_pieces ?s0 @ new) = 3" "set new \<subseteq> set (shuffle1 rnd)"
    "follows ?s0 (board s) new b'"
    using deal_loop_terminates[OF cs _ _ nf] by auto
  have "follows s (board s) new b'"
    using follows_cong_imp[OF d(4), of s] by simp
  then show ?thesis
    using d(1,2,3) cs(1) by (intro exI[of _ new] exI[of _ b']) (auto simp: guaranteed_deal_new_pieces_def)
qed

lemma detect_lines_placed [simp]:
  "detect_lines (s\<lparr>board := b, score := sc\<rparr>) = detect_lines s"
  by (rule detect_lines_cong) simp_all

lemma py_int_error:
  assumes "py_int x = Inl e"
  shows "e = OverflowError \<or> e = ValueError"
  using assms by (cases x) auto

lemma place_and_score_error:
  assumes "place_and_score s name m cm = Inl e"
  shows "e = OverflowError \<or> e = ValueError"
  using assms
  by (auto simp: place_and_score_def clear_and_score_def Let_def
           split: prod.splits if_splits sum.splits dest: py_int_error)

lemma place_and_score_fields:
  assumes "place_and_score s name m cm = Inr (s1, n)"
  shows "width s1 = width s" and "height s1 = height s"
    and "is_guranteed_valid_moves s1 = is_guranteed_valid_moves s"
    and "game_over s1 = game_over s"
    and "current_pieces s1 = remove1 name (current_pieces s)"
    and "n = fst (detect_lines s (board s OR m))"
    and "board s1 = fst (detect_and_clear_lines s (board s OR m))"
    and "combo s1 = (if 0 < n then combo s + 1 else combo s)"
    and "not_combo_counter s1 = (if 0 < n then 3 else not_combo_counter s - 1)"
  using assms
  by (auto simp: place_and_score_def clear_and_score_def detect_and_clear_lines_def Let_def
           split: prod.splits if_splits sum.splits)

lemma finish_move_total:
  assumes "set (current_pieces s) \<subseteq> set all_piece_names"
  shows "\<exists>r over. finish_move s n = Inr (Success r, s\<lparr>game_over := over\<rparr>) \<and>
           (over \<longleftrightarrow> game_over s \<or>
              (\<forall>name\<in>set (current_pieces s). \<forall>pos\<in>set (positions s).
                 is_valid_move s (board s) name pos \<noteq> Inr True)) \<and>
           res_board r = board s \<and> res_score r = Some (score s) \<and>
           res_lines_cleared r = n \<and> res_game_over r = over"
proof -
  obtain pm where pm: "get_possible_moves s = Inr pm"
    and iff: "pm = [] \<longleftrightarrow> (\<forall>name\<in>set (current_pieces s). \<forall>pos\<in>set (positions s).
                 is_valid_move s (board s) name pos \<noteq> Inr True)"
    using get_possible_moves_catalog[OF assms] by blast
  let ?over = "game_over s \<or> pm = []"
  let ?r = "\<lparr>res_board = board s, res_score = Some (score s),
             res_lines_cleared = n, res_game_over = ?over\<rparr>"
  have e: "s\<lparr>game_over := game_over s\<rparr> = s" by simp
  have "finish_move s n = Inr (Success ?r, s\<lparr>game_over := ?over\<rparr>)"
    using pm e by (simp add: finish_move_def)
  then show ?thesis
    using iff by (intro exI[of _ ?r] exI[of _ ?over]) simp
qed

lemma finish_move_SuccessD:
  assumes "finish_move s n = Inr (out, s')"
  shows "\<exists>r over. out = Success r \<and> s' = s\<lparr>game_over := over\<rparr> \<and> res_board r = board s \<and>
           res_score r = Some (score s) \<and> res_lines_cleared r = n \<and> res_game_over r = over"
proof -
  have e: "s\<lparr>game_over := game_over s\<rparr> = s" by simp
  from assms show ?thesis
    by (auto simp: finish_move_def Let_def e split: sum.splits if_splits intro: e[symmetric])
qed

lemma guaranteed_deal_SomeD:
  assumes "guaranteed_deal_new_pieces s rnd = Some (Inr s')"
  shows "\<exists>cur. s' = s\<lparr>current_pieces := cur\<rparr>"
proof -
  have pass: "\<And>cs s b b' s'. deal_pass s cs b = Inr (b', s') \<Longrightarrow> \<exists>cur. s' = s\<lparr>current_pieces := cur\<rparr>"
  proof -
    fix cs s b b' s'
    show "deal_pass s cs b = Inr (b', s') \<Longrightarrow> \<exists>cur. s' = s\<lparr>current_pieces := cur\<rparr>"
    proof (induction cs arbitrary: s b)
      case Nil
      then have "s' = s\<lparr>current_pieces := current_pieces s\<rparr>" by simp
      then show ?case by blast
    next
      case (Cons name cs)
      from Cons.prems show ?case
        by (auto simp: Let_def split: sum.splits option.splits outcome.splits if_splits
                 dest!: Cons.IH)
    qed
  qed
  let ?P = "\<lambda>(s::session) (cs::string list) (b::int) r.
              \<forall>s'. r = Inr s' \<longrightarrow> (\<exists>cur. s' = s\<lparr>current_pieces := cur\<rparr>)"
  have step: "?P s cs b r"
    if IH: "\<And>s cs b r. f s cs b = Some r \<Longrightarrow> ?P s cs b r"
      and body: "(case deal_pass s cs b of Inl e \<Rightarrow> Some (Inl e)
                  | Inr (b', s') \<Rightarrow> if length (current_pieces s') = 3 then Some (Inr s')
                                  else f s' cs b') = Some r"
    for f s cs b r
  proof (cases "deal_pass s cs b")
    case (Inl e)
    with body show ?thesis by auto
  next
    case (Inr p)
    obtain b' s1 where p: "p = (b', s1)" by (cases p)
    obtain cur where s1: "s1 = s\<lparr>current_pieces := cur\<rparr>"
      using pass Inr p by blast
    show ?thesis
    proof (cases "length (current_pieces s1) = 3")
      case True
      with body Inr p s1 show ?thesis by auto
    next
      case False
      with body Inr p have "f s1 cs b' = Some r" by simp
      from IH[OF this] show ?thesis
        unfolding s1 by auto
    qed
  qed
  have loop: "?P s cs b r" if "deal_loop s cs b = Some r" for s cs b r
    by (rule deal_loop.raw_induct[where P = ?P, OF step that])
  from assms obtain s1 where "deal_loop (s\<lparr>current_pieces := []\<rparr>) (shuffle1 rnd) (board s) = Some (Inr s1)"
    and "s' = s1\<lparr>current_pieces := shuffle2 rnd (current_pieces s1)\<rparr>"
    by (auto simp: guaranteed_deal_new_pieces_def split: option.splits sum.splits)
  then show ?thesis
    using loop by fastforce
qed

subsection \<open>Accepted and rejected moves\<close>

lemma make_move_rejected:
  assumes "game_over s \<or> piece_name \<notin> set (current_pieces s) \<or>
           is_valid_move s (board s) piece_name pos = Inr False"
  shows "\<exists>msg. make_move s rnd piece_name pos = Some (Inr (Failure msg, s))"
  using assms by (auto simp: make_move_def)

lemma valid_has_entry:
  assumes "is_valid_move s b name pos = Inr True"
  shows "\<exists>cm. map_of name_to_pieces name = Some cm"
  using assms
  by (auto simp: is_valid_move_def get_piece_mask_def name_to_piece_masks_def
           split: option.splits prod.splits if_splits sum.splits)

lemma make_move_accepted:
  assumes held: "set (current_pieces s) \<subseteq> set all_piece_names" and rnd: "draws_ok rnd"
    and live: "\<not> game_over s" and has: "piece_name \<in> set (current_pieces s)"
    and valid: "is_valid_move s (board s) piece_name pos = Inr True"
  shows "(\<exists>r s'. make_move s rnd piece_name pos = Some (Inr (Success r, s'))) \<or>
         make_move s rnd piece_name pos = Some (Inl OverflowError) \<or>
         make_move s rnd piece_name pos = Some (Inl ValueError)"
proof -
  obtain m where m: "get_piece_mask s piece_name pos = Inr m"
    using is_valid_move_get_piece_mask[OF valid] by blast
  obtain cm where cm: "map_of name_to_pieces piece_name = Some cm"
    using valid_has_entry[OF valid] by blast
  show ?thesis
  proof (cases "place_and_score s piece_name m cm")
    case (Inl e)
    then have "make_move s rnd piece_name pos = Some (Inl e)"
      using live has valid m cm by (simp add: make_move_def)
    then show ?thesis using place_and_score_error[OF Inl] by auto
  next
    case (Inr p)
    obtain s1 n where p: "p = (s1, n)" by (cases p)
    have ps: "place_and_score s piece_name m cm = Inr (s1, n)" using Inr p by simp
  note f = place_and_score_fields[OF ps]
  have name: "piece_name \<in> set all_piece_names" using held has by auto
  have dims: "0 < width s1" "0 < height s1"
    using valid_imp_dims[OF name valid] f(1,2) by auto
  have held1: "set (current_pieces s1) \<subseteq> set all_piece_names"
    using held f(5) set_remove1_subset[of piece_name "current_pieces s"] by auto
  have nf: "nonfull s1 (board s1)"
    using nonfull_after_clear[of s "board s OR m"] dims f(1,2,7) by (simp add: nonfull_def)
  let ?deal = "if current_pieces s1 = []
            then (if is_guranteed_valid_moves s1 then guaranteed_deal_new_pieces s1 rnd
                  else Some (Inr (deal_new_pieces s1 rnd)))
            else Some (Inr s1)"
  have "\<exists>cur. ?deal = Some (Inr (s1\<lparr>current_pieces := cur\<rparr>)) \<and> set cur \<subseteq> set all_piece_names"
  proof (cases "current_pieces s1 = []")
    case False
    have "s1\<lparr>current_pieces := current_pieces s1\<rparr> = s1" by simp
    with False held1 show ?thesis by (intro exI[of _ "current_pieces s1"]) simp
  next
    case True
    show ?thesis
    proof (cases "is_guranteed_valid_moves s1")
      case True
      obtain cur where "guaranteed_deal_new_pieces s1 rnd = Some (Inr (s1\<lparr>current_pieces := shuffle2 rnd cur\<rparr>))"
        "set cur \<subseteq> set all_piece_names"
        using guaranteed_deal_total[OF rnd nf] by blast
      then show ?thesis
        using True \<open>current_pieces s1 = []\<close> draws_ok_shuffle2(1)[OF rnd, of cur]
        by (intro exI[of _ "shuffle2 rnd cur"]) simp
    next
      case False
      then show ?thesis
        using \<open>current_pieces s1 = []\<close> rnd
        by (intro exI[of _ "sample3 rnd"]) (simp add: deal_new_pieces_def draws_ok_def)
    qed
  qed
  then obtain cur where deal: "?deal = Some (Inr (s1\<lparr>current_pieces := cur\<rparr>))"
    and cur: "set cur \<subseteq> set all_piece_names" by blast
  let ?s2 = "s1\<lparr>current_pieces := cur\<rparr>"
  have held2: "set (current_pieces ?s2) \<subseteq> set all_piece_names" using cur by simp
  obtain r over where fin: "finish_move ?s2 n = Inr (Success r, ?s2\<lparr>game_over := over\<rparr>)"
    "res_board r = board ?s2" "res_score r = Some (score ?s2)" "res_lines_cleared r = n"
    "res_game_over r = over"
    using finish_move_total[OF held2, of n] by blast
  have mm: "make_move s rnd piece_name pos = Some (Inr (Success r, ?s2\<lparr>game_over := over\<rparr>))"
    using live has valid m cm ps deal fin(1)
    by (simp add: make_move_def)
  show ?thesis
    using mm by blast
  qed
qed


lemma make_move_SomeD:
  assumes "make_move s rnd piece_name pos = Some (Inr (out, s'))"
  shows "((\<exists>msg. out = Failure msg) \<and> s' = s \<and>
          (game_over s \<or> piece_name \<notin> set (current_pieces s) \<or>
           is_valid_move s (board s) piece_name pos = Inr False)) \<or>
         (\<exists>m cm s1 n cur r over.
            \<not> game_over s \<and> piece_name \<in> set (current_pieces s) \<and>
            is_valid_move s (board s) piece_name pos = Inr True \<and>
            get_piece_mask s piece_name pos = Inr m \<and>
            place_and_score s piece_name m cm = Inr (s1, n) \<and>
            out = Success r \<and> s' = s1\<lparr>current_pieces := cur, game_over := over\<rparr> \<and>
            res_lines_cleared r = n \<and> res_board r = board s1 \<and> res_score r = Some (score s1) \<and>
            res_game_over r = over)"
proof (cases "game_over s \<or> piece_name \<notin> set (current_pieces s) \<or>
           is_valid_move s (board s) piece_name pos = Inr False")
  case True
  obtain msg where "make_move s rnd piece_name pos = Some (Inr (Failure msg, s))"
    using make_move_rejected[OF True, of rnd] by blast
  with assms have "out = Failure msg" "s' = s" by simp_all
  with True show ?thesis by blast
next
  case False
  then have live: "\<not> game_over s" and has: "piece_name \<in> set (current_pieces s)"
    and nv: "is_valid_move s (board s) piece_name pos \<noteq> Inr False" by auto
  from assms live has nv have valid: "is_valid_move s (board s) piece_name pos = Inr True"
    by (auto simp: make_move_def split: sum.splits bool.splits)
  from assms live has valid obtain m where m: "get_piece_mask s piece_name pos = Inr m"
    by (auto simp: make_move_def split: sum.splits)
  from assms live has valid m obtain cm where cm: "map_of name_to_pieces piece_name = Some cm"
    by (auto simp: make_move_def split: option.splits)
  from assms live has valid m cm obtain s1 n where
    ps: "place_and_score s piece_name m cm = Inr (s1, n)"
    by (auto simp: make_move_def split: sum.splits)
  let ?deal = "if current_pieces s1 = []
            then (if is_guranteed_valid_moves s1 then guaranteed_deal_new_pieces s1 rnd
                  else Some (Inr (deal_new_pieces s1 rnd)))
            else Some (Inr s1)"
  from assms live has valid m cm ps obtain s2 where deal: "?deal = Some (Inr s2)"
    and fin: "finish_move s2 n = Inr (out, s')"
    by (simp add: make_move_def split: option.splits sum.splits)
  have e: "\<exists>cur. s1 = s1\<lparr>current_pieces := cur\<rparr>"
    by (rule exI[of _ "current_pieces s1"]) simp
  from deal have "\<exists>cur. s2 = s1\<lparr>current_pieces := cur\<rparr>"
  proof (cases "current_pieces s1 = []")
    case False
    with deal e show ?thesis by simp
  next
    case True
    with deal show ?thesis
      by (cases "is_guranteed_valid_moves s1")
         (auto simp: deal_new_pieces_def dest: guaranteed_deal_SomeD)
  qed
  then obtain cur where s2: "s2 = s1\<lparr>current_pieces := cur\<rparr>" by blast
  obtain r over where r: "out = Success r" "s' = s2\<lparr>game_over := over\<rparr>" "res_board r = board s2"
    "res_score r = Some (score s2)" "res_lines_cleared r = n" "res_game_over r = over"
    using finish_move_SuccessD[OF fin] by blast
  show ?thesis
    using live has valid m ps r unfolding s2
    by (intro disjI2 exI[of _ m] exI[of _ cm] exI[of _ s1] exI[of _ n] exI[of _ cur]
          exI[of _ r] exI[of _ over]) simp
qed

subsection \<open>Sequences of calls\<close>

text \<open>A caller's sequence of \<open>make_move\<close> calls, each with the outcomes of its random draws
  (used only by a call that deals): the results in order and the session left at the end.\<close>

fun play ::
  "session \<Rightarrow> (draws \<times> string \<times> position) list \<Rightarrow> (py_error + (outcome list \<times> session)) option"
where
  "play s [] = Some (Inr ([], s))"
| "play s ((rnd, piece_name, pos) # calls) =
     (case make_move s rnd piece_name pos of
        None \<Rightarrow> None
      | Some (Inl e) \<Rightarrow> Some (Inl e)
      | Some (Inr (out, s1)) \<Rightarrow>
          (case play s1 calls of
             None \<Rightarrow> None
           | Some (Inl e) \<Rightarrow> Some (Inl e)
           | Some (Inr (outs, s2)) \<Rightarrow> Some (Inr (out # outs, s2))))"

text \<open>A result that reports at least one cleared line.\<close>

fun cleared_lines :: "outcome \<Rightarrow> bool" where
  "cleared_lines (Failure msg) = False"
| "cleared_lines (Success r) = (0 < res_lines_cleared r)"

lemma make_move_combo:
  assumes "make_move s rnd piece_name pos = Some (Inr (out, s'))"
  shows "combo s' = (if cleared_lines out then combo s + 1 else combo s)"
proof -
  from make_move_SomeD[OF assms] consider
    (rejected) msg where "out = Failure msg" "s' = s"
  | (accepted) m cm s1 n cur r over where
      "place_and_score s piece_name m cm = Inr (s1, n)" "out = Success r"
      "s' = s1\<lparr>current_pieces := cur, game_over := over\<rparr>" "res_lines_cleared r = n"
    by blast
  then show ?thesis
  proof cases
    case rejected
    then show ?thesis by simp
  next
    case accepted
    then show ?thesis
      using place_and_score_fields(8)[of s piece_name m cm s1 n] by simp
  qed
qed

subsection \<open>The extent of a placement mask\<close>

lemma piece_mask_in_extent:
  assumes valid: "is_valid_move s b name pos = Inr True"
    and m: "get_piece_mask s name pos = Inr m" and bit: "bit m i"
  shows "i < width s * height s"
proof -
  obtain px py where pos: "pos = (px, py)" by (cases pos)
  obtain cm where cm: "map_of name_to_pieces name = Some cm"
    using valid_has_entry[OF valid] by blast
  obtain pw ph where sz: "map_of name_to_size name = Some (pw, ph)"
    using valid by (auto simp: is_valid_move_def split: option.splits)
  from valid have v: "0 \<le> px" "0 \<le> py" "px + int pw \<le> int (width s)" "py + int ph \<le> int (height s)"
    unfolding pos by (simp_all add: is_valid_move_catalog[OF cm sz])
  define x y where "x = nat px" and "y = nat py"
  have xy: "x + pw \<le> width s" "y + ph \<le> height s" "px = int x" "py = int y"
    using v by (auto simp: x_def y_def)
  have "m = push_bit (y * width s + x) (scaled_mask (width s) cm pw ph)"
    using m get_piece_mask_catalog[OF cm sz v(1,2), of s] unfolding pos xy(3,4)
    by (simp add: nat_cell_index)
  with bit obtain r where r: "y * width s + x \<le> i" "r < ph"
    "r * width s \<le> i - (y * width s + x)" "i - (y * width s + x) - r * width s < pw"
    by (auto simp: bit_push_bit_iff bit_scaled_mask)
  define j where "j = i - (y * width s + x) - r * width s"
  have i: "i = (y + r) * width s + (x + j)"
    using r by (simp add: j_def algebra_simps)
  have "x + j < width s" using r(4) xy(1) by (simp add: j_def)
  then have "i < (y + r) * width s + width s" by (simp add: i)
  also have "\<dots> = Suc (y + r) * width s" by simp
  also have "\<dots> \<le> height s * width s"
    using r(2) xy(2) by (intro mult_le_mono1) simp
  finally show ?thesis by (simp add: mult.commute)
qed

subsection \<open>What an accepted move does to the board\<close>

lemma make_move_Success_board:
  assumes "make_move s rnd piece_name pos = Some (Inr (Success r, s'))"
  shows "\<exists>m. is_valid_move s (board s) piece_name pos = Inr True \<and>
           get_piece_mask s piece_name pos = Inr m \<and>
           res_lines_cleared r = fst (detect_lines s (board s OR m)) \<and>
           board s' = fst (detect_and_clear_lines s (board s OR m)) \<and>
           res_board r = board s' \<and> width s' = width s \<and> height s' = height s"
proof -
  from make_move_SomeD[OF assms] obtain m cm s1 n cur over where
    "is_valid_move s (board s) piece_name pos = Inr True" "get_piece_mask s piece_name pos = Inr m"
    and ps: "place_and_score s piece_name m cm = Inr (s1, n)"
    and "s' = s1\<lparr>current_pieces := cur, game_over := over\<rparr>" "res_lines_cleared r = n"
      "res_board r = board s1"
    by auto
  then show ?thesis
    using place_and_score_fields(1,2,6,7)[OF ps] by (intro exI[of _ m]) simp
qed

lemma make_move_extent:
  assumes mm: "make_move s rnd piece_name pos = Some (Inr (out, s'))"
    and inv: "\<forall>i. bit (board s) i \<longrightarrow> i < width s * height s"
  shows "width s' = width s \<and> height s' = height s \<and>
         (\<forall>i. bit (board s') i \<longrightarrow> i < width s' * height s')"
proof (cases out)
  case (Failure msg)
  with make_move_SomeD[OF mm] have "s' = s" by auto
  with inv show ?thesis by simp
next
  case (Success r)
  from make_move_Success_board[OF mm[unfolded Success]] obtain m where
    valid: "is_valid_move s (board s) piece_name pos = Inr True"
    and m: "get_piece_mask s piece_name pos = Inr m"
    and b: "board s' = fst (detect_and_clear_lines s (board s OR m))"
    and d: "width s' = width s" "height s' = height s"
    by blast
  have "i < width s * height s" if "bit (board s') i" for i
  proof -
    from that have "bit (board s) i \<or> bit m i"
      unfolding b by (simp add: bit_cleared_board bit_or_iff)
    then show ?thesis
      using inv piece_mask_in_extent[OF valid m] by blast
  qed
  then show ?thesis using d by simp
qed

subsection \<open>A move that deals nothing, and two pieces across a row of eight\<close>

lemma make_move_no_deal:
  assumes held: "set (current_pieces s) \<subseteq> set all_piece_names"
    and live: "\<not> game_over s" and has: "piece_name \<in> set (current_pieces s)"
    and valid: "is_valid_move s (board s) piece_name pos = Inr True"
    and m: "get_piece_mask s piece_name pos = Inr m"
    and cm: "map_of name_to_pieces piece_name = Some cm"
    and ps: "place_and_score s piece_name m cm = Inr (s1, n)"
    and q: "q \<in> set (current_pieces s1)" "qpos \<in> set (positions s1)"
      "is_valid_move s1 (board s1) q qpos = Inr True"
  shows "make_move s rnd piece_name pos =
           Some (Inr (Success \<lparr>res_board = board s1, res_score = Some (score s1),
                                res_lines_cleared = n, res_game_over = False\<rparr>, s1))"
proof -
  have held1: "set (current_pieces s1) \<subseteq> set all_piece_names"
    using held place_and_score_fields(5)[OF ps] set_remove1_subset[of piece_name "current_pieces s"]
    by auto
  obtain pm where pm: "get_possible_moves s1 = Inr pm" "pm \<noteq> []"
    using get_possible_moves_catalog[OF held1] q by blast
  have "game_over s1 = False"
    using place_and_score_fields(4)[OF ps] live by simp
  then have "finish_move s1 n =
      Inr (Success \<lparr>res_board = board s1, res_score = Some (score s1),
                     res_lines_cleared = n, res_game_over = False\<rparr>, s1)"
    using pm by (simp add: finish_move_def)
  moreover have "current_pieces s1 \<noteq> []" using q(1) by auto
  ultimately show ?thesis
    using live has valid m cm ps by (simp add: make_move_def)
qed

lemma line4h_entry: "map_of name_to_pieces ''line4h'' = Some 15"
  by (simp add: name_to_pieces_def)

lemma all_fit_empty_8x8:
  "\<forall>q\<in>set all_piece_names. is_valid_move (fresh_session 8 8 []) 0 q (0, 0) = Inr True"
  by code_simp

lemma eight_rows_first:
  "\<forall>y\<in>set [0..<8].
     is_valid_move (fresh_session 8 8 []) 0 ''line4h'' (0, int y) = Inr True \<and>
     get_piece_mask (fresh_session 8 8 []) ''line4h'' (0, int y) = Inr (push_bit (8 * y) 15) \<and>
     detect_lines (fresh_session 8 8 []) (push_bit (8 * y) 15) = (0, 0) \<and>
     is_valid_move (fresh_session 8 8 []) (push_bit (8 * y) 15) ''line4h'' (4, int y) = Inr True \<and>
     get_piece_mask (fresh_session 8 8 []) ''line4h'' (4, int y) = Inr (push_bit (8 * y + 4) 15) \<and>
     detect_lines (fresh_session 8 8 []) (push_bit (8 * y) 15 OR push_bit (8 * y + 4) 15) =
       (1, push_bit (8 * y) 15 OR push_bit (8 * y + 4) 15) \<and>
     push_bit (8 * y) 15 OR push_bit (8 * y + 4) 15 = row_mask (fresh_session 8 8 []) y"
  by code_simp

lemma first_clear_bonus:
  "bit_count 15 = 4"
  "fadd (Float 0 0) BASE_SCORE_ACCELERATION = Float 2406611050876109 (- 46)"
  "fadd (Float 0 0) (Float 2406611050876109 (- 46)) = Float 2406611050876109 (- 46)"
  "py_int (fmul (Float 2406611050876109 (- 46)) (SCORE_MULTIPLIERS_get 1)) = Inr 34"
  "py_int (fmul (Float 2406611050876109 (- 46)) (SCORE_MULTIPLIERS_get (Suc 0))) = Inr 34"
  "match_combo 0 (Float 0 0) = Float 2406611050876109 (- 46)"
  "round53 2406611050876109 (- 46) = Float 2406611050876109 (- 46)"
  by code_simp+

lemma clear_all_set_bits: "(a OR b) AND NOT a AND NOT b = (0::int)"
  by (auto simp: bit_eq_iff bit_and_iff bit_or_iff bit_not_iff)

subsection \<open>From the greedy placements of the deal to a sequence of simulations\<close>

lemma swap_draws_ok: "draws_ok swap_draws"
proof -
  have "mset (case xs of a # b # rest \<Rightarrow> b # a # rest | _ \<Rightarrow> xs) = mset xs" for xs :: "string list"
    by (cases xs rule: list.exhaust[case_product list.exhaust]) (auto split: list.splits)
  then show ?thesis
    by (simp add: draws_ok_def swap_draws_def all_piece_names_def name_to_pieces_def)
qed

lemma follows_seq_placeable:
  assumes "follows s b names b'" and "set (current_pieces s) \<subseteq> set all_piece_names"
  shows "seq_placeable s b names"
  using assms(1)
proof induction
  case (follows_Nil b)
  show ?case by simp
next
  case (follows_Cons b name pos b1 names b')
  from follows_Cons.hyps(1) have name: "name \<in> set all_piece_names"
    and valid: "is_valid_move s b name pos = Inr True"
    and b1: "\<exists>m. get_piece_mask s name pos = Inr m \<and> b1 = fst (detect_and_clear_lines s (b OR m))"
    by (auto simp: placed_def)
  obtain m r where "get_piece_mask s name pos = Inr m" "try_move s b name pos = Inr (Success r)"
    "res_board r = fst (detect_and_clear_lines s (b OR m))"
    using try_move_valid[OF assms(2) valid] by blast
  with b1 have r: "try_move s b name pos = Inr (Success r)" "res_board r = b1" by auto
  have "pos \<in> set (positions s)" using valid_imp_in_positions[OF name valid] .
  then show ?case
    using r follows_Cons.IH by (auto simp: list_ex_iff intro!: bexI[of _ pos])
qed

subsection \<open>Full lines, cell by cell\<close>

lemma cell_index_unique:
  fixes x y w :: nat
  assumes "x < w" and "x' < w" and "y * w + x = y' * w + x'"
  shows "y = y' \<and> x = x'"
proof -
  have "(y * w + x) div w = y" "(y * w + x) mod w = x" using assms(1) by simp_all
  moreover have "(y' * w + x') div w = y'" "(y' * w + x') mod w = x'" using assms(2) by simp_all
  ultimately show ?thesis using assms(3) by simp
qed

lemma row_mask_full_iff:
  "b AND row_mask s y = row_mask s y \<longleftrightarrow> (\<forall>x<width s. bit b (y * width s + x))"
proof
  assume "b AND row_mask s y = row_mask s y"
  then show "\<forall>x<width s. bit b (y * width s + x)"
    by (simp add: full_iff_bits bit_row_mask)
next
  assume a: "\<forall>x<width s. bit b (y * width s + x)"
  have "bit b k" if "y * width s \<le> k" "k < y * width s + width s" for k
  proof -
    have "k - y * width s < width s" "k = y * width s + (k - y * width s)" using that by auto
    then show ?thesis using a by metis
  qed
  then show "b AND row_mask s y = row_mask s y"
    by (simp add: full_iff_bits bit_row_mask)
qed

lemma col_mask_full_iff:
  "b AND col_mask s x = col_mask s x \<longleftrightarrow> (\<forall>y<height s. bit b (y * width s + x))"
  by (auto simp: full_iff_bits bit_col_mask)

lemma bit_row_mask_cell:
  assumes "x < width s"
  shows "bit (row_mask s r) (y * width s + x) \<longleftrightarrow> r = y"
proof
  assume "bit (row_mask s r) (y * width s + x)"
  then have k: "r * width s \<le> y * width s + x" "y * width s + x < r * width s + width s"
    by (simp_all add: bit_row_mask)
  then have "y * width s + x - r * width s < width s"
    "y * width s + x = r * width s + (y * width s + x - r * width s)" by auto
  then show "r = y" using cell_index_unique[OF assms] by metis
next
  assume "r = y"
  then show "bit (row_mask s r) (y * width s + x)" using assms by (simp add: bit_row_mask)
qed

lemma bit_col_mask_cell:
  assumes "x < width s" and "c < width s" and "y < height s"
  shows "bit (col_mask s c) (y * width s + x) \<longleftrightarrow> c = x"
proof
  assume "bit (col_mask s c) (y * width s + x)"
  then obtain r where "y * width s + x = r * width s + c" by (auto simp: bit_col_mask)
  then show "c = x" using cell_index_unique[OF assms(1,2)] by metis
next
  assume "c = x"
  then show "bit (col_mask s c) (y * width s + x)" using assms(3) by (auto simp: bit_col_mask)
qed

lemma count_in_table:
  "length (filter P (map f [0..<n])) = card {i. i < n \<and> P (f i)}"
proof -
  have "length (filter P (map f [0..<n])) = length (filter (P \<circ> f) [0..<n])"
    by (simp add: filter_map)
  also have "\<dots> = card (set (filter (P \<circ> f) [0..<n]))"
    by (rule distinct_card[symmetric]) simp
  also have "set (filter (P \<circ> f) [0..<n]) = {i. i < n \<and> P (f i)}" by auto
  finally show ?thesis .
qed

subsection \<open>The solver's search\<close>















section \<open>The claims\<close>

subsection \<open>Clearing lines twice\<close>

text \<open>
  Claim C8. Detecting and clearing lines is idempotent: on the board that one application
  leaves, a second application detects no full line and returns the board unchanged. This
  holds for every board value (any integer). The operation runs only after a valid
  placement, so on a board with at least one column and one row, which is the hypothesis.
\<close>

theorem detect_and_clear_lines_idempotent:
  assumes "0 < width s" and "0 < height s"
  shows "detect_and_clear_lines s (fst (detect_and_clear_lines s b)) =
           (fst (detect_and_clear_lines s b), 0)"
proof -
  let ?b' = "fst (detect_and_clear_lines s b)"
  have "fst (detect_lines s ?b') = 0"
    using no_full_line_after_clear[OF assms] by (simp only: detect_lines_zero_iff) blast
  then show ?thesis
    by (subst detect_and_clear_lines_alt) simp
qed


theorem detect_and_clear_lines_idempotent_witness:
  "0 < width (fresh_session 8 8 []) \<and> 0 < height (fresh_session 8 8 []) \<and>
   detect_and_clear_lines (fresh_session 8 8 []) 511 = (256, 1) \<and>
   detect_and_clear_lines (fresh_session 8 8 []) 256 = (256, 0)"
proof -
  have w: "0 < width (fresh_session 8 8 [])" and h: "0 < height (fresh_session 8 8 [])"
    by (simp_all add: fresh_session_def)
  have e: "detect_and_clear_lines (fresh_session 8 8 []) 511 = (256, 1)"
    by code_simp
  show ?thesis
    using detect_and_clear_lines_idempotent[OF w h, of 511] w h e by simp
qed

subsection \<open>Line detection in \<open>make_move\<close>\<close>

text \<open>
  Claim C5. In an accepted \<open>make_move\<close>, with \<open>m\<close> the placement mask, every test is
  made on the board after the placement, \<open>board s OR m\<close>. The cell \<open>(x, y)\<close> is the bit
  \<open>y * width + x\<close>. The test \<open>board AND mask = mask\<close> holds for the mask of row \<open>y\<close> iff
  every cell of row \<open>y\<close> is occupied, and for the mask of column \<open>x\<close> iff every cell of
  column \<open>x\<close> is occupied. The reported count is the number of full rows plus the number
  of full columns, each counted on its own (a cell where a full row meets a full column
  is counted in both). A cell of the board left is occupied iff it was occupied after the
  placement and neither its row nor its column was full then: all full lines are found on
  the same board and cleared at once.
\<close>

theorem make_move_line_detection:
  assumes "make_move s rnd piece_name pos = Some (Inr (Success r, s'))"
  shows "\<exists>m. get_piece_mask s piece_name pos = Inr m \<and>
           (\<forall>y<height s. (board s OR m) AND row_mask s y = row_mask s y \<longleftrightarrow>
                          (\<forall>x<width s. bit (board s OR m) (y * width s + x))) \<and>
           (\<forall>x<width s. (board s OR m) AND col_mask s x = col_mask s x \<longleftrightarrow>
                         (\<forall>y<height s. bit (board s OR m) (y * width s + x))) \<and>
           res_lines_cleared r =
             card {y. y < height s \<and> (\<forall>x<width s. bit (board s OR m) (y * width s + x))} +
             card {x. x < width s \<and> (\<forall>y<height s. bit (board s OR m) (y * width s + x))} \<and>
           (\<forall>x<width s. \<forall>y<height s.
              bit (board s') (y * width s + x) \<longleftrightarrow>
                bit (board s OR m) (y * width s + x) \<and>
                \<not> (\<forall>x'<width s. bit (board s OR m) (y * width s + x')) \<and>
                \<not> (\<forall>y'<height s. bit (board s OR m) (y' * width s + x)))"
proof -
  from make_move_Success_board[OF assms] obtain m where
    m: "get_piece_mask s piece_name pos = Inr m"
    and n: "res_lines_cleared r = fst (detect_lines s (board s OR m))"
    and b: "board s' = fst (detect_and_clear_lines s (board s OR m))"
    by blast
  let ?B = "board s OR m"
  let ?row = "\<lambda>y. \<forall>x<width s. bit ?B (y * width s + x)"
  let ?col = "\<lambda>x. \<forall>y<height s. bit ?B (y * width s + x)"
  have count: "res_lines_cleared r = card {y. y < height s \<and> ?row y} + card {x. x < width s \<and> ?col x}"
    unfolding n detect_lines_fst row_masks_def col_masks_def count_in_table
      row_mask_full_iff col_mask_full_iff ..
  have cell: "bit (board s') (y * width s + x) \<longleftrightarrow>
                bit ?B (y * width s + x) \<and> \<not> ?row y \<and> \<not> ?col x"
    if x: "x < width s" and y: "y < height s" for x y
  proof -
    have rows: "(\<exists>k\<in>set (row_masks s). ?B AND k = k \<and> bit k (y * width s + x)) \<longleftrightarrow> ?row y"
      using y by (auto simp: row_masks_def bit_row_mask_cell[OF x] row_mask_full_iff)
    have cols: "(\<exists>k\<in>set (col_masks s). ?B AND k = k \<and> bit k (y * width s + x)) \<longleftrightarrow> ?col x"
    proof
      assume "\<exists>k\<in>set (col_masks s). ?B AND k = k \<and> bit k (y * width s + x)"
      then obtain c where c: "c < width s" "?B AND col_mask s c = col_mask s c"
        "bit (col_mask s c) (y * width s + x)"
        by (auto simp: col_masks_def)
      then have "c = x" using bit_col_mask_cell[OF x c(1) y] by simp
      then show "?col x" using c(2) by (simp add: col_mask_full_iff)
    next
      assume "?col x"
      then have "?B AND col_mask s x = col_mask s x" by (simp add: col_mask_full_iff)
      moreover have "bit (col_mask s x) (y * width s + x)"
        using bit_col_mask_cell[OF x x y] by simp
      ultimately show "\<exists>k\<in>set (col_masks s). ?B AND k = k \<and> bit k (y * width s + x)"
        using x by (auto simp: col_masks_def)
    qed
    have "bit (board s') (y * width s + x) \<longleftrightarrow>
            bit ?B (y * width s + x) \<and>
            \<not> ((\<exists>k\<in>set (row_masks s). ?B AND k = k \<and> bit k (y * width s + x)) \<or>
               (\<exists>k\<in>set (col_masks s). ?B AND k = k \<and> bit k (y * width s + x)))"
      unfolding b bit_cleared_board by auto
    then show ?thesis unfolding rows cols by blast
  qed
  show ?thesis
    using m count cell row_mask_full_iff[of ?B s] col_mask_full_iff[of ?B s]
    by (intro exI[of _ m]) blast
qed

theorem make_move_line_detection_witness:
  "make_move ((fresh_session 4 4 [''sq1'', ''sq2''])\<lparr>board := 4382\<rparr>) plain_draws ''sq1'' (0, 0) =
     Some (Inr (Success \<lparr>res_board = 0, res_score = Some 69, res_lines_cleared = 2,
                          res_game_over = False\<rparr>,
                \<lparr>width = 4, height = 4, is_guranteed_valid_moves = True, board = 0,
                 score = 69, combo = 0, not_combo_counter = 3,
                 score_increment = Float 2406611050876109 (- 46),
                 score_incremental_acceleration = Float 2406611050876109 (- 46),
                 game_over = False, current_pieces = [''sq2'']\<rparr>)) \<and>
   get_piece_mask ((fresh_session 4 4 [''sq1'', ''sq2''])\<lparr>board := 4382\<rparr>) ''sq1'' (0, 0) = Inr 1 \<and>
   (2::nat) =
     card {y. y < 4 \<and> list_all (\<lambda>x. bit (4383::int) (y * 4 + x)) [0..<4]} +
     card {x. x < 4 \<and> list_all (\<lambda>y. bit (4383::int) (y * 4 + x)) [0..<4]}"
proof -
  let ?s = "(fresh_session 4 4 [''sq1'', ''sq2''])\<lparr>board := 4382\<rparr>"
  have h: "make_move ?s plain_draws ''sq1'' (0, 0) =
     Some (Inr (Success \<lparr>res_board = 0, res_score = Some 69, res_lines_cleared = 2,
                          res_game_over = False\<rparr>,
                \<lparr>width = 4, height = 4, is_guranteed_valid_moves = True, board = 0,
                 score = 69, combo = 0, not_combo_counter = 3,
                 score_increment = Float 2406611050876109 (- 46),
                 score_incremental_acceleration = Float 2406611050876109 (- 46),
                 game_over = False, current_pieces = [''sq2'']\<rparr>))"
    by code_simp
  have g: "get_piece_mask ?s ''sq1'' (0, 0) = Inr 1" by code_simp
  have d: "width ?s = 4" "height ?s = 4" "board ?s OR 1 = 4383"
    by (simp_all add: fresh_session_def)
  from make_move_line_detection[OF h] g
  have "(2::nat) =
     card {y. y < height ?s \<and> (\<forall>x<width ?s. bit (board ?s OR 1) (y * width ?s + x))} +
     card {x. x < width ?s \<and> (\<forall>y<height ?s. bit (board ?s OR 1) (y * width ?s + x))}"
    by auto
  then have "(2::nat) =
     card {y. y < 4 \<and> list_all (\<lambda>x. bit (4383::int) (y * 4 + x)) [0..<4]} +
     card {x. x < 4 \<and> list_all (\<lambda>y. bit (4383::int) (y * 4 + x)) [0..<4]}"
    unfolding d by (simp add: list_all_iff Ball_def)
  with h g show ?thesis by blast
qed

subsection \<open>The board stays within its extent\<close>

text \<open>
  Claim C7. The board of a session never has a bit set at an index outside
  \<open>[0, width * height)\<close>: the constructor leaves the empty board, and every \<open>make_move\<close>
  of a sequence of calls keeps the property, since the mask of a valid placement lies
  within the extent and clearing only removes bits.
\<close>

theorem board_within_extent:
  assumes "init board_size guaranteed rnd0 = Inr s0"
    and "play s0 calls = Some (Inr (outs, s))"
  shows "\<forall>i. bit (board s) i \<longrightarrow> i < width s * height s"
proof -
  have start: "\<forall>i. bit (board s0) i \<longrightarrow> i < width s0 * height s0"
    using assms(1) by (auto simp: init_def deal_new_pieces_def split: if_splits)
  show ?thesis
    using assms(2) start
  proof (induction calls arbitrary: s0 outs)
    case Nil
    then show ?case by simp
  next
    case (Cons call calls)
    obtain rnd piece_name pos where call: "call = (rnd, piece_name, pos)" by (cases call)
    from Cons.prems(1) obtain out s1 outs1 where
      mm: "make_move s0 rnd piece_name pos = Some (Inr (out, s1))"
      and rest: "play s1 calls = Some (Inr (outs1, s))"
      unfolding call by (auto split: option.splits sum.splits prod.splits)
    have "\<forall>i. bit (board s1) i \<longrightarrow> i < width s1 * height s1"
      using make_move_extent[OF mm Cons.prems(2)] by blast
    then show ?case by (rule Cons.IH[OF rest])
  qed
qed

theorem board_within_extent_witness:
  "init (4, 4) True \<lparr>sample3 = [''line4h'', ''sq1'', ''sq2''], shuffle1 = all_piece_names,
                      shuffle2 = (\<lambda>xs. xs)\<rparr> =
     Inr (fresh_session 4 4 [''line4h'', ''sq1'', ''sq2'']) \<and>
   play (fresh_session 4 4 [''line4h'', ''sq1'', ''sq2''])
        [(plain_draws, ''sq2'', (0, 1)), (plain_draws, ''line4h'', (0, 0))] =
     Some (Inr ([Success \<lparr>res_board = 816, res_score = Some 4, res_lines_cleared = 0,
                          res_game_over = False\<rparr>,
                 Success \<lparr>res_board = 816, res_score = Some 42, res_lines_cleared = 1,
                          res_game_over = False\<rparr>],
                \<lparr>width = 4, height = 4, is_guranteed_valid_moves = True, board = 816,
                 score = 42, combo = 0, not_combo_counter = 3,
                 score_increment = Float 2406611050876109 (- 46),
                 score_incremental_acceleration = Float 2406611050876109 (- 46),
                 game_over = False, current_pieces = [''sq1'']\<rparr>)) \<and>
   \<not> bit (816::int) (4 * 4)"
proof -
  have i: "init (4, 4) True \<lparr>sample3 = [''line4h'', ''sq1'', ''sq2''], shuffle1 = all_piece_names,
                      shuffle2 = (\<lambda>xs. xs)\<rparr> =
     Inr (fresh_session 4 4 [''line4h'', ''sq1'', ''sq2''])"
    by (simp add: init_def deal_new_pieces_def fresh_session_def)
  have p: "play (fresh_session 4 4 [''line4h'', ''sq1'', ''sq2''])
        [(plain_draws, ''sq2'', (0, 1)), (plain_draws, ''line4h'', (0, 0))] =
     Some (Inr ([Success \<lparr>res_board = 816, res_score = Some 4, res_lines_cleared = 0,
                          res_game_over = False\<rparr>,
                 Success \<lparr>res_board = 816, res_score = Some 42, res_lines_cleared = 1,
                          res_game_over = False\<rparr>],
                \<lparr>width = 4, height = 4, is_guranteed_valid_moves = True, board = 816,
                 score = 42, combo = 0, not_combo_counter = 3,
                 score_increment = Float 2406611050876109 (- 46),
                 score_incremental_acceleration = Float 2406611050876109 (- 46),
                 game_over = False, current_pieces = [''sq1'']\<rparr>))"
    by code_simp
  have "\<not> bit (816::int) (4 * 4)"
    using board_within_extent[OF i p] by auto
  then show ?thesis
    using i p by simp
qed

subsection \<open>Rejected moves\<close>

text \<open>
  Claim C6. \<open>make_move\<close> returns an error result exactly when the session is already
  over, or the piece is not in the held list, or the placement is not valid on the live
  board; and a \<open>make_move\<close> that returns an error result leaves the whole session as it
  was. This holds for every session, piece name and position. (In the other cases the call
  returns a success, or leaves by an exception, or is the deal that never returns; none of
  these is an error result.)
\<close>

theorem make_move_error_iff:
  "((\<exists>msg s'. make_move s rnd piece_name pos = Some (Inr (Failure msg, s'))) \<longleftrightarrow>
      (game_over s \<or> piece_name \<notin> set (current_pieces s) \<or>
       is_valid_move s (board s) piece_name pos = Inr False)) \<and>
   (\<forall>msg s'. make_move s rnd piece_name pos = Some (Inr (Failure msg, s')) \<longrightarrow> s' = s)"
proof (intro conjI iffI allI impI)
  assume "\<exists>msg s'. make_move s rnd piece_name pos = Some (Inr (Failure msg, s'))"
  then obtain msg s' where "make_move s rnd piece_name pos = Some (Inr (Failure msg, s'))"
    by blast
  from make_move_SomeD[OF this]
  show "game_over s \<or> piece_name \<notin> set (current_pieces s) \<or>
        is_valid_move s (board s) piece_name pos = Inr False"
    by auto
next
  assume "game_over s \<or> piece_name \<notin> set (current_pieces s) \<or>
          is_valid_move s (board s) piece_name pos = Inr False"
  from make_move_rejected[OF this, of rnd]
  show "\<exists>msg s'. make_move s rnd piece_name pos = Some (Inr (Failure msg, s'))"
    by blast
next
  fix msg s'
  assume "make_move s rnd piece_name pos = Some (Inr (Failure msg, s'))"
  from make_move_SomeD[OF this] show "s' = s" by auto
qed

theorem make_move_error_iff_witness:
  "is_valid_move (fresh_session 4 4 [''line4h'', ''sq1''])
     (board (fresh_session 4 4 [''line4h'', ''sq1''])) ''line4h'' (1, 0) = Inr False \<and>
   (\<exists>msg. make_move (fresh_session 4 4 [''line4h'', ''sq1'']) plain_draws ''line4h'' (1, 0) =
            Some (Inr (Failure msg, fresh_session 4 4 [''line4h'', ''sq1''])))"
proof -
  have bad: "is_valid_move (fresh_session 4 4 [''line4h'', ''sq1''])
               (board (fresh_session 4 4 [''line4h'', ''sq1''])) ''line4h'' (1, 0) = Inr False"
    by code_simp
  note t = make_move_error_iff[of "fresh_session 4 4 [''line4h'', ''sq1'']" plain_draws
      "''line4h''" "(1, 0)"]
  from t bad obtain msg s' where
    m: "make_move (fresh_session 4 4 [''line4h'', ''sq1'']) plain_draws ''line4h'' (1, 0) =
          Some (Inr (Failure msg, s'))"
    by blast
  with t have "s' = fresh_session 4 4 [''line4h'', ''sq1'']" by blast
  with m bad show ?thesis by blast
qed

subsection \<open>The combo level\<close>

text \<open>
  Claim C10. Over any sequence of \<open>make_move\<close> calls, the combo level at the end is the
  level at the start plus the number of calls that cleared at least one line: it goes up by
  one on every clearing move and is unchanged by every other call, so it never decreases,
  and it is never \<open>-1\<close> again once it has been \<open>0\<close> or more. The reset branch is never taken:
  its test reads \<open>not_combo_counter\<close> right after the assignment of 3.
\<close>

theorem combo_counts_clearing_moves:
  assumes "play s calls = Some (Inr (outs, s'))"
  shows "combo s' = combo s + int (length (filter cleared_lines outs)) \<and> combo s \<le> combo s' \<and>
         (0 \<le> combo s \<longrightarrow> combo s' \<noteq> - 1)"
proof -
  have "combo s' = combo s + int (length (filter cleared_lines outs))"
    using assms
  proof (induction calls arbitrary: s outs)
    case Nil
    then show ?case by simp
  next
    case (Cons call calls)
    obtain rnd piece_name pos where call: "call = (rnd, piece_name, pos)" by (cases call)
    from Cons.prems obtain out s1 outs1 where
      mm: "make_move s rnd piece_name pos = Some (Inr (out, s1))"
      and rest: "play s1 calls = Some (Inr (outs1, s'))" and outs: "outs = out # outs1"
      unfolding call by (auto split: option.splits sum.splits prod.splits)
    show ?case
      using Cons.IH[OF rest] make_move_combo[OF mm] outs by simp
  qed
  then show ?thesis by simp
qed

theorem combo_counts_clearing_moves_witness:
  "play (fresh_session 4 4 [''line4h'', ''sq1''])
        [(plain_draws, ''sq1'', (0, 1)), (plain_draws, ''line4h'', (0, 0))] =
     Some (Inr ([Success \<lparr>res_board = 16, res_score = Some 1, res_lines_cleared = 0,
                          res_game_over = False\<rparr>,
                 Success \<lparr>res_board = 16, res_score = Some 39, res_lines_cleared = 1,
                          res_game_over = False\<rparr>],
                \<lparr>width = 4, height = 4, is_guranteed_valid_moves = True, board = 16,
                 score = 39, combo = 0, not_combo_counter = 3,
                 score_increment = Float 2406611050876109 (- 46),
                 score_incremental_acceleration = Float 2406611050876109 (- 46),
                 game_over = False, current_pieces = [''sq1'', ''sq2'', ''line2h'']\<rparr>)) \<and>
   (0::int) = combo (fresh_session 4 4 [''line4h'', ''sq1'']) + 1"
proof -
  have p: "play (fresh_session 4 4 [''line4h'', ''sq1''])
        [(plain_draws, ''sq1'', (0, 1)), (plain_draws, ''line4h'', (0, 0))] =
     Some (Inr ([Success \<lparr>res_board = 16, res_score = Some 1, res_lines_cleared = 0,
                          res_game_over = False\<rparr>,
                 Success \<lparr>res_board = 16, res_score = Some 39, res_lines_cleared = 1,
                          res_game_over = False\<rparr>],
                \<lparr>width = 4, height = 4, is_guranteed_valid_moves = True, board = 16,
                 score = 39, combo = 0, not_combo_counter = 3,
                 score_increment = Float 2406611050876109 (- 46),
                 score_incremental_acceleration = Float 2406611050876109 (- 46),
                 game_over = False, current_pieces = [''sq1'', ''sq2'', ''line2h'']\<rparr>))"
    by code_simp
  show ?thesis
    using combo_counts_clearing_moves[OF p] p by simp
qed

subsection \<open>The test of the combo reset\<close>

text \<open>
  Claim C1 says that the reset test \<open>not_combo_counter + lines_cleared \<le> 1\<close> reads the
  counter as it was before the assignment of 3. The code assigns 3 first and tests the
  field afterwards. The theorem runs a session on a board of 4 by 4 dealt without the
  guarantee: a clearing move, three moves that clear nothing (the counter goes from 3 to
  0), and a move that clears one line. The code leaves combo 1, the accumulator at twice
  34.2 and a bonus of 68 (score 114); the transition as the claim words it would reset
  first and leave combo 0, the accumulator at 34.2 and a bonus of 34 (score 80).
\<close>

theorem combo_reset_reads_counter_after_reset:
  "init (4, 4) False \<lparr>sample3 = [''line4h'', ''sq1'', ''line2h''], shuffle1 = all_piece_names,
                       shuffle2 = (\<lambda>xs. xs)\<rparr> =
     Inr ((fresh_session 4 4 [''line4h'', ''sq1'', ''line2h''])\<lparr>is_guranteed_valid_moves := False\<rparr>) \<and>
   play ((fresh_session 4 4 [''line4h'', ''sq1'', ''line2h''])\<lparr>is_guranteed_valid_moves := False\<rparr>)
     [(plain_draws, ''line4h'', (0, 0)), (plain_draws, ''sq1'', (0, 0)),
      (\<lparr>sample3 = [''sq2'', ''sq1'', ''line4v''], shuffle1 = all_piece_names,
        shuffle2 = (\<lambda>xs. xs)\<rparr>, ''line2h'', (1, 0)),
      (plain_draws, ''sq2'', (0, 1))] =
     Some (Inr ([Success \<lparr>res_board = 0, res_score = Some 38, res_lines_cleared = 1,
                          res_game_over = False\<rparr>,
                 Success \<lparr>res_board = 1, res_score = Some 39, res_lines_cleared = 0,
                          res_game_over = False\<rparr>,
                 Success \<lparr>res_board = 7, res_score = Some 41, res_lines_cleared = 0,
                          res_game_over = False\<rparr>,
                 Success \<lparr>res_board = 823, res_score = Some 45, res_lines_cleared = 0,
                          res_game_over = False\<rparr>],
                \<lparr>width = 4, height = 4, is_guranteed_valid_moves = False, board = 823,
                 score = 45, combo = 0, not_combo_counter = 0,
                 score_increment = Float 2406611050876109 (- 46),
                 score_incremental_acceleration = Float 2406611050876109 (- 46),
                 game_over = False, current_pieces = [''sq1'', ''line4v'']\<rparr>)) \<and>
   make_move \<lparr>width = 4, height = 4, is_guranteed_valid_moves = False, board = 823,
              score = 45, combo = 0, not_combo_counter = 0,
              score_increment = Float 2406611050876109 (- 46),
              score_incremental_acceleration = Float 2406611050876109 (- 46),
              game_over = False, current_pieces = [''sq1'', ''line4v'']\<rparr>
             plain_draws ''sq1'' (3, 0) =
     Some (Inr (Success \<lparr>res_board = 816, res_score = Some 114, res_lines_cleared = 1,
                          res_game_over = False\<rparr>,
                \<lparr>width = 4, height = 4, is_guranteed_valid_moves = False, board = 816,
                 score = 114, combo = 1, not_combo_counter = 3,
                 score_increment = Float 4813222101752218 (- 46),
                 score_incremental_acceleration = Float 2406611050876109 (- 46),
                 game_over = False, current_pieces = [''line4v'']\<rparr>)) \<and>
   clear_and_score_as_specified
       \<lparr>width = 4, height = 4, is_guranteed_valid_moves = False, board = 831,
        score = 46, combo = 0, not_combo_counter = 0,
        score_increment = Float 2406611050876109 (- 46),
        score_incremental_acceleration = Float 2406611050876109 (- 46),
        game_over = False, current_pieces = [''sq1'', ''line4v'']\<rparr> 1 15 =
     Inr \<lparr>width = 4, height = 4, is_guranteed_valid_moves = False, board = 816,
          score = 80, combo = 0, not_combo_counter = 3,
          score_increment = Float 2406611050876109 (- 46),
          score_incremental_acceleration = Float 2406611050876109 (- 46),
          game_over = False, current_pieces = [''sq1'', ''line4v'']\<rparr>"
  by code_simp

subsection \<open>What \<open>try_move\<close> reads\<close>

text \<open>
  Claim C3 says that the result of \<open>try_move\<close>, its \<open>game_over\<close> field included, depends
  on the board, the piece and the position given. The field comes from
  \<open>get_possible_moves\<close>, which reads the live board and the live held list. The theorem
  takes a constructed session on a board of 2 by 2 and the session that one \<open>make_move\<close>
  leaves (terminal: neither held piece fits), and calls \<open>try_move\<close> on both with the same
  empty board, piece and position: the two results differ in \<open>game_over\<close>.
\<close>

theorem try_move_game_over_reads_live_session:
  "init (2, 2) True \<lparr>sample3 = [''sq1'', ''sq3'', ''line3h''], shuffle1 = all_piece_names,
                      shuffle2 = (\<lambda>xs. xs)\<rparr> =
     Inr (fresh_session 2 2 [''sq1'', ''sq3'', ''line3h'']) \<and>
   make_move (fresh_session 2 2 [''sq1'', ''sq3'', ''line3h'']) plain_draws ''sq1'' (0, 0) =
     Some (Inr (Success \<lparr>res_board = 1, res_score = Some 1, res_lines_cleared = 0,
                          res_game_over = True\<rparr>,
                \<lparr>width = 2, height = 2, is_guranteed_valid_moves = True, board = 1,
                 score = 1, combo = - 1, not_combo_counter = 2,
                 score_increment = Float 0 0, score_incremental_acceleration = Float 0 0,
                 game_over = True, current_pieces = [''sq3'', ''line3h'']\<rparr>)) \<and>
   try_move (fresh_session 2 2 [''sq1'', ''sq3'', ''line3h'']) 0 ''sq1'' (1, 1) =
     Inr (Success \<lparr>res_board = 8, res_score = None, res_lines_cleared = 0,
                    res_game_over = False\<rparr>) \<and>
   try_move \<lparr>width = 2, height = 2, is_guranteed_valid_moves = True, board = 1,
             score = 1, combo = - 1, not_combo_counter = 2,
             score_increment = Float 0 0, score_incremental_acceleration = Float 0 0,
             game_over = True, current_pieces = [''sq3'', ''line3h'']\<rparr> 0 ''sq1'' (1, 1) =
     Inr (Success \<lparr>res_board = 8, res_score = None, res_lines_cleared = 0,
                    res_game_over = True\<rparr>)"
  by code_simp

subsection \<open>Pieces of four cells across a row of eight\<close>

text \<open>
  Claim C4 has four \<open>line4h\<close> pieces fill one row of a board of 8 by 8, the line being
  cleared by the fourth. A row of eight cells takes two such pieces. With the pieces laid
  end to end from the left of row 0, the second placement clears the row (score 42), and
  the third and the fourth, at columns 8 and 12, are rejected as invalid.
\<close>

theorem four_line4h_counterexample:
  "play (fresh_session 8 8 [''line4h'', ''line4h'', ''line4h'', ''line4h''])
     [(plain_draws, ''line4h'', (0, 0)), (plain_draws, ''line4h'', (4, 0)),
      (plain_draws, ''line4h'', (8, 0)), (plain_draws, ''line4h'', (12, 0))] =
   Some (Inr ([Success \<lparr>res_board = 15, res_score = Some 4, res_lines_cleared = 0,
                        res_game_over = False\<rparr>,
               Success \<lparr>res_board = 0, res_score = Some 42, res_lines_cleared = 1,
                        res_game_over = False\<rparr>,
               Failure ''Invalid move.'', Failure ''Invalid move.''],
              \<lparr>width = 8, height = 8, is_guranteed_valid_moves = True, board = 0,
               score = 42, combo = 0, not_combo_counter = 3,
               score_increment = Float 2406611050876109 (- 46),
               score_incremental_acceleration = Float 2406611050876109 (- 46),
               game_over = False, current_pieces = [''line4h'', ''line4h'']\<rparr>))"
  by code_simp

text \<open>
  Claim C4 as amended. On a board of 8 by 8, from the state the constructor leaves (combo
  \<open>-1\<close>, \<open>not_combo_counter\<close> 3, accumulators 0, empty board), holding two \<open>line4h\<close>
  pieces and any third catalog piece: placing the two \<open>line4h\<close> end to end across any row
  \<open>y\<close> fills that row exactly (the two masks together are the row mask), the second
  placement clears exactly one line, combo goes from \<open>-1\<close> to 0, and the score is the 8
  cells placed plus a bonus of 34.
\<close>

theorem two_line4h_clear_a_row:
  assumes "y < 8" and "q \<in> set all_piece_names"
  shows "play (fresh_session 8 8 [''line4h'', ''line4h'', q])
           [(rnd1, ''line4h'', (0, int y)), (rnd2, ''line4h'', (4, int y))] =
         Some (Inr ([Success \<lparr>res_board = push_bit (8 * y) 15, res_score = Some 4,
                              res_lines_cleared = 0, res_game_over = False\<rparr>,
                     Success \<lparr>res_board = 0, res_score = Some (8 + 34),
                              res_lines_cleared = 1, res_game_over = False\<rparr>],
                    (fresh_session 8 8 [q])
                      \<lparr>score := 8 + 34, combo := 0,
                       score_increment := Float 2406611050876109 (- 46),
                       score_incremental_acceleration := Float 2406611050876109 (- 46)\<rparr>)) \<and>
         push_bit (8 * y) 15 OR push_bit (8 * y + 4) 15 = row_mask (fresh_session 8 8 []) y"
proof -
  let ?g = "fresh_session 8 8 []"
  have y: "y \<in> set [0..<8]" using assms(1) by simp
  note e0 = eight_rows_first[rule_format, OF y]
  note e1 = e0[THEN conjunct1] and r1 = e0[THEN conjunct2]
  note e2 = r1[THEN conjunct1] and r2 = r1[THEN conjunct2]
  note e3 = r2[THEN conjunct1] and r3 = r2[THEN conjunct2]
  note e4 = r3[THEN conjunct1] and r4 = r3[THEN conjunct2]
  note e5 = r4[THEN conjunct1] and r5 = r4[THEN conjunct2]
  note e6 = r5[THEN conjunct1] and e7 = r5[THEN conjunct2]
  define S0 where "S0 = fresh_session 8 8 [''line4h'', ''line4h'', q]"
  define S1 where "S1 = S0\<lparr>board := push_bit (8 * y) 15, score := 4, not_combo_counter := 2,
                            current_pieces := [''line4h'', q]\<rparr>"
  define S2 where "S2 = (fresh_session 8 8 [q])
                      \<lparr>score := 8 + 34, combo := 0,
                       score_increment := Float 2406611050876109 (- 46),
                       score_incremental_acceleration := Float 2406611050876109 (- 46)\<rparr>"
  have dims: "width S0 = width ?g" "height S0 = height ?g" "width S1 = width ?g" "height S1 = height ?g"
    "width S2 = width ?g" "height S2 = height ?g"
    by (simp_all add: S0_def S1_def S2_def fresh_session_def)
  have v0: "is_valid_move S0 = is_valid_move ?g" "get_piece_mask S0 = get_piece_mask ?g"
    "detect_lines S0 = detect_lines ?g"
    by (rule is_valid_move_cong[OF dims(1,2)], rule get_piece_mask_cong[OF dims(1)],
        rule detect_lines_cong[OF dims(1,2)])
  have v1: "is_valid_move S1 = is_valid_move ?g" "get_piece_mask S1 = get_piece_mask ?g"
    "detect_lines S1 = detect_lines ?g"
    by (rule is_valid_move_cong[OF dims(3,4)], rule get_piece_mask_cong[OF dims(3)],
        rule detect_lines_cong[OF dims(3,4)])
  have v2: "is_valid_move S2 = is_valid_move ?g"
    by (rule is_valid_move_cong[OF dims(5,6)])
  have held0: "set (current_pieces S0) \<subseteq> set all_piece_names"
    using assms(2) by (simp add: S0_def fresh_session_def all_piece_names_def name_to_pieces_def)
  have held1: "set (current_pieces S1) \<subseteq> set all_piece_names"
    using assms(2) by (simp add: S1_def all_piece_names_def name_to_pieces_def)
  have b0: "board S0 = 0" "board S1 = push_bit (8 * y) 15"
    by (simp_all add: S0_def S1_def fresh_session_def)
  have "place_and_score S0 ''line4h'' (push_bit (8 * y) 15) 15 =
          Inr (S0\<lparr>board := push_bit (8 * y) 15, score := score S0 + 4,
                  not_combo_counter := not_combo_counter S0 - 1,
                  current_pieces := remove1 ''line4h'' (current_pieces S0)\<rparr>, 0)"
    using e3 by (simp add: place_and_score_def v0 b0 first_clear_bonus)
  then have ps1: "place_and_score S0 ''line4h'' (push_bit (8 * y) 15) 15 = Inr (S1, 0)"
    by (simp add: S1_def S0_def fresh_session_def)
  have "place_and_score S1 ''line4h'' (push_bit (8 * y + 4) 15) 15 =
          (case clear_and_score
             (S1\<lparr>board := push_bit (8 * y) 15 OR push_bit (8 * y + 4) 15, score := score S1 + 4\<rparr>)
             (Suc 0) (push_bit (8 * y) 15 OR push_bit (8 * y + 4) 15) of
             Inl e \<Rightarrow> Inl e
           | Inr s3 \<Rightarrow> Inr (s3\<lparr>current_pieces := remove1 ''line4h'' (current_pieces s3)\<rparr>, Suc 0))"
    using e6 by (simp add: place_and_score_def v1 b0 first_clear_bonus)
  then have ps2: "place_and_score S1 ''line4h'' (push_bit (8 * y + 4) 15) 15 = Inr (S2, 1)"
    by (simp add: clear_and_score_def first_clear_bonus clear_all_set_bits S1_def S0_def S2_def
          fresh_session_def Let_def)
  have mm1: "make_move S0 rnd1 ''line4h'' (0, int y) =
      Some (Inr (Success \<lparr>res_board = board S1, res_score = Some (score S1),
                           res_lines_cleared = 0, res_game_over = False\<rparr>, S1))"
  proof (rule make_move_no_deal[OF held0 _ _ _ _ line4h_entry ps1, of _ "''line4h''" "(4, int y)"])
    show "\<not> game_over S0" by (simp add: S0_def fresh_session_def)
    show "''line4h'' \<in> set (current_pieces S0)" by (simp add: S0_def fresh_session_def)
    show "is_valid_move S0 (board S0) ''line4h'' (0, int y) = Inr True"
      using e1 by (simp add: v0) (simp add: S0_def fresh_session_def)
    show "get_piece_mask S0 ''line4h'' (0, int y) = Inr (push_bit (8 * y) 15)"
      using e2 by (simp add: v0)
    show "''line4h'' \<in> set (current_pieces S1)" by (simp add: S1_def)
    show "(4, int y) \<in> set (positions S1)"
      using assms(1) by (simp add: in_positions S1_def S0_def fresh_session_def)
    show "is_valid_move S1 (board S1) ''line4h'' (4, int y) = Inr True"
      using e4 by (simp add: v1) (simp add: S1_def)
  qed
  have mm2: "make_move S1 rnd2 ''line4h'' (4, int y) =
      Some (Inr (Success \<lparr>res_board = board S2, res_score = Some (score S2),
                           res_lines_cleared = 1, res_game_over = False\<rparr>, S2))"
  proof (rule make_move_no_deal[OF held1 _ _ _ _ line4h_entry ps2, of _ q "(0, 0)"])
    show "\<not> game_over S1" by (simp add: S1_def S0_def fresh_session_def)
    show "''line4h'' \<in> set (current_pieces S1)" by (simp add: S1_def)
    show "is_valid_move S1 (board S1) ''line4h'' (4, int y) = Inr True"
      using e4 by (simp add: v1) (simp add: S1_def)
    show "get_piece_mask S1 ''line4h'' (4, int y) = Inr (push_bit (8 * y + 4) 15)"
      using e5 by (simp add: v1)
    show "q \<in> set (current_pieces S2)" by (simp add: S2_def fresh_session_def)
    show "(0, 0) \<in> set (positions S2)"
      by (simp add: in_positions S2_def fresh_session_def)
    show "is_valid_move S2 (board S2) q (0, 0) = Inr True"
      using all_fit_empty_8x8 assms(2) by (simp add: v2) (simp add: S2_def fresh_session_def)
  qed
  have "play S0 [(rnd1, ''line4h'', (0, int y)), (rnd2, ''line4h'', (4, int y))] =
      Some (Inr ([Success \<lparr>res_board = board S1, res_score = Some (score S1),
                           res_lines_cleared = 0, res_game_over = False\<rparr>,
                  Success \<lparr>res_board = board S2, res_score = Some (score S2),
                           res_lines_cleared = 1, res_game_over = False\<rparr>], S2))"
    by (simp add: mm1 mm2)
  moreover have "board S1 = push_bit (8 * y) 15" "score S1 = 4" "board S2 = 0" "score S2 = 8 + 34"
    by (simp_all add: S1_def S2_def fresh_session_def)
  ultimately show ?thesis
    using e7 unfolding S0_def S2_def by simp
qed

theorem two_line4h_clear_a_row_witness:
  "(0::nat) < 8 \<and> ''sq1'' \<in> set all_piece_names \<and>
   play (fresh_session 8 8 [''line4h'', ''line4h'', ''sq1''])
        [(plain_draws, ''line4h'', (0, 0)), (plain_draws, ''line4h'', (4, 0))] =
   Some (Inr ([Success \<lparr>res_board = 15, res_score = Some 4,
                        res_lines_cleared = 0, res_game_over = False\<rparr>,
               Success \<lparr>res_board = 0, res_score = Some 42,
                        res_lines_cleared = 1, res_game_over = False\<rparr>],
              (fresh_session 8 8 [''sq1''])
                \<lparr>score := 42, combo := 0,
                 score_increment := Float 2406611050876109 (- 46),
                 score_incremental_acceleration := Float 2406611050876109 (- 46)\<rparr>))"
proof -
  have h: "(0::nat) < 8" by simp
  show ?thesis
    using two_line4h_clear_a_row[OF h sq1_entry(3), of plain_draws plain_draws] sq1_entry(3)
    by simp
qed

subsection \<open>The guaranteed deal\<close>

text \<open>
  Claim C2 says that the three names can be placed one after the other in the order in
  which the deal returns them. The deal shuffles the list before it returns it. On the
  board of 4 by 4 whose free cells are (0,0), (2,1), (1,2) and (3,3), with the catalog in
  its own order, the deal collects \<open>sq1\<close> (which clears row 0 and column 0), then \<open>line2h\<close>,
  then \<open>line2v\<close>; a last shuffle that exchanges the first two returns \<open>line2h, sq1, line2v\<close>,
  and \<open>line2h\<close> has no valid position on the board the deal started from.
\<close>

theorem guaranteed_deal_returned_order_counterexample:
  "is_valid_move ((fresh_session 4 4 [])\<lparr>board := 32190\<rparr>) 32190 ''sq1'' (0, 0) = Inr True \<and>
   guaranteed_deal_new_pieces ((fresh_session 4 4 [])\<lparr>board := 32190\<rparr>) swap_draws =
     Some (Inr ((fresh_session 4 4 [''line2h'', ''sq1'', ''line2v''])\<lparr>board := 32190\<rparr>)) \<and>
   seq_placeable ((fresh_session 4 4 [''line2h'', ''sq1'', ''line2v''])\<lparr>board := 32190\<rparr>) 32190
     [''line2h'', ''sq1'', ''line2v''] = False \<and>
   can_place_piece ((fresh_session 4 4 [''line2h'', ''sq1'', ''line2v''])\<lparr>board := 32190\<rparr>) 32190
     ''line2h'' = Inr None"
  by code_simp

text \<open>
  Claim C2 as amended. For every board on which at least one catalog piece has a valid
  placement, the guaranteed deal terminates and returns exactly 3 piece names; the list
  returned is a shuffle of the list in the order of collection, and in that order of
  collection the three pieces can be placed one after the other (each at some valid
  position, lines cleared), so no board on the way leaves the remaining pieces without a
  placement.
\<close>

theorem guaranteed_deal_placeable_in_collection_order:
  assumes "draws_ok rnd"
    and "\<exists>name\<in>set all_piece_names. \<exists>pos. is_valid_move s (board s) name pos = Inr True"
  shows "\<exists>s' cur. guaranteed_deal_new_pieces s rnd = Some (Inr s') \<and>
           length (current_pieces s') = 3 \<and>
           current_pieces s' = shuffle2 rnd cur \<and> mset (current_pieces s') = mset cur \<and>
           seq_placeable s' (board s) cur"
proof -
  have nf: "nonfull s (board s)"
    using assms(2) valid_imp_nonfull by blast
  obtain cur b' where d: "guaranteed_deal_new_pieces s rnd = Some (Inr (s\<lparr>current_pieces := shuffle2 rnd cur\<rparr>))"
    "length cur = 3" "set cur \<subseteq> set all_piece_names" "follows s (board s) cur b'"
    using guaranteed_deal_total[OF assms(1) nf] by blast
  let ?s' = "s\<lparr>current_pieces := shuffle2 rnd cur\<rparr>"
  have held: "set (current_pieces ?s') \<subseteq> set all_piece_names"
    using d(3) draws_ok_shuffle2(1)[OF assms(1), of cur] by simp
  have "follows ?s' (board s) cur b'"
    using follows_cong_imp[OF d(4), of ?s'] by simp
  then have "seq_placeable ?s' (board s) cur"
    by (rule follows_seq_placeable[OF _ held])
  moreover have "mset (shuffle2 rnd cur) = mset cur"
    using assms(1) by (simp add: draws_ok_def)
  ultimately show ?thesis
    using d(1,2) draws_ok_shuffle2(2)[OF assms(1), of cur]
    by (intro exI[of _ ?s'] exI[of _ cur]) simp
qed

theorem guaranteed_deal_placeable_in_collection_order_witness:
  "draws_ok swap_draws \<and>
   is_valid_move ((fresh_session 4 4 [])\<lparr>board := 32190\<rparr>) 32190 ''sq1'' (0, 0) = Inr True \<and>
   guaranteed_deal_new_pieces ((fresh_session 4 4 [])\<lparr>board := 32190\<rparr>) swap_draws =
     Some (Inr ((fresh_session 4 4 [''line2h'', ''sq1'', ''line2v''])\<lparr>board := 32190\<rparr>)) \<and>
   seq_placeable ((fresh_session 4 4 [''line2h'', ''sq1'', ''line2v''])\<lparr>board := 32190\<rparr>) 32190
     [''sq1'', ''line2h'', ''line2v'']"
proof -
  let ?s = "(fresh_session 4 4 [])\<lparr>board := 32190\<rparr>"
  have v: "is_valid_move ?s 32190 ''sq1'' (0, 0) = Inr True" by code_simp
  have b: "board ?s = 32190" by simp
  have h: "\<exists>name\<in>set all_piece_names. \<exists>pos. is_valid_move ?s (board ?s) name pos = Inr True"
    using v sq1_entry(3) unfolding b by blast
  have d: "guaranteed_deal_new_pieces ?s swap_draws =
     Some (Inr ((fresh_session 4 4 [''line2h'', ''sq1'', ''line2v''])\<lparr>board := 32190\<rparr>))"
    by code_simp
  obtain s' cur where r: "guaranteed_deal_new_pieces ?s swap_draws = Some (Inr s')"
    "length (current_pieces s') = 3" "current_pieces s' = shuffle2 swap_draws cur"
    "seq_placeable s' (board ?s) cur"
    using guaranteed_deal_placeable_in_collection_order[OF swap_draws_ok h] by blast
  from r(1) d have s': "s' = (fresh_session 4 4 [''line2h'', ''sq1'', ''line2v''])\<lparr>board := 32190\<rparr>"
    by simp
  have "length cur = 3" using r(2,3) draws_ok_shuffle2(2)[OF swap_draws_ok, of cur] by simp
  then obtain x y z where cur: "cur = [x, y, z]"
    by (metis length_0_conv length_Suc_conv numeral_3_eq_3)
  from r(3) have "cur = [''sq1'', ''line2h'', ''line2v'']"
    unfolding cur s' by (simp add: swap_draws_def fresh_session_def)
  then show ?thesis
    using swap_draws_ok v d r(4) unfolding s' b by simp
qed

subsection \<open>The solver\<close>



end
